theory Spec2Isabelle
  imports Main "HOL-Library.Word" "HOL-Library.Monad_Syntax"
begin

unbundle bit_operations_syntax

section \<open>Memory\<close>

text \<open>
  The allocator of \<^verbatim>\<open>mm.c\<close> works on raw memory.  Memory is a total map from byte
  addresses to bytes.  An address (a \<^verbatim>\<open>char *\<close> or \<^verbatim>\<open>void *\<close>) is a natural
  number; \<^verbatim>\<open>NULL\<close> is 0.  Pointer arithmetic that leaves the address space is
  undefined in C and is not wrapped here; subtraction stops at 0.  A pointer that is
  stored in memory (\<^verbatim>\<open>(size_t) p\<close>) is a 64-bit word, an \<^verbatim>\<open>unsigned int\<close> is a
  32-bit word, a \<^verbatim>\<open>size_t\<close> is a 64-bit word with wrap-around arithmetic.
  Multi-byte accesses are little-endian, as on the x86-64 target of the source.
\<close>

type_synonym addr = nat
type_synonym memory = "addr \<Rightarrow> 8 word"

text \<open>\<^verbatim>\<open>GET(p)\<close> and \<^verbatim>\<open>PUT(p, val)\<close>: a 4-byte word at address \<open>p\<close>.\<close>

definition GET :: "memory \<Rightarrow> addr \<Rightarrow> 32 word" where
  "GET m p = ucast (m p) OR push_bit 8 (ucast (m (p + 1))) OR push_bit 16 (ucast (m (p + 2)))
     OR push_bit 24 (ucast (m (p + 3)))"

definition PUT :: "memory \<Rightarrow> addr \<Rightarrow> 32 word \<Rightarrow> memory" where
  "PUT m p v = m(p := ucast v, p + 1 := ucast (drop_bit 8 v), p + 2 := ucast (drop_bit 16 v),
     p + 3 := ucast (drop_bit 24 v))"

text \<open>\<^verbatim>\<open>GET_8B(p)\<close> and \<^verbatim>\<open>PUT_8B(p, val)\<close>: an 8-byte word at address \<open>p\<close>.\<close>

definition GET_8B :: "memory \<Rightarrow> addr \<Rightarrow> 64 word" where
  "GET_8B m p = ucast (GET m p) OR push_bit 32 (ucast (GET m (p + 4)))"

definition PUT_8B :: "memory \<Rightarrow> addr \<Rightarrow> 64 word \<Rightarrow> memory" where
  "PUT_8B m p v = PUT (PUT m p (ucast v)) (p + 4) (ucast (drop_bit 32 v))"

text \<open>
  \<^verbatim>\<open>memcpy\<close> and \<^verbatim>\<open>memset\<close> of the C library.  \<^verbatim>\<open>memcpy\<close> reads every source byte
  from the memory before the call (C leaves overlapping copies undefined).
\<close>

definition memcpy :: "memory \<Rightarrow> addr \<Rightarrow> addr \<Rightarrow> nat \<Rightarrow> memory" where
  "memcpy m dst src n = (\<lambda>a. if dst \<le> a \<and> a < dst + n then m (src + (a - dst)) else m a)"

definition memset :: "memory \<Rightarrow> addr \<Rightarrow> 8 word \<Rightarrow> nat \<Rightarrow> memory" where
  "memset m p c n = (\<lambda>a. if p \<le> a \<and> a < p + n then c else m a)"

section \<open>Block encoding (the macros of \<^verbatim>\<open>mm.c\<close>)\<close>

definition PACK :: "'a::len word \<Rightarrow> 'a word \<Rightarrow> 'a word" where
  "PACK sz alloc = sz OR alloc"

definition MAX2 :: "64 word \<Rightarrow> 64 word \<Rightarrow> 64 word" where
  "MAX2 x y = (if x > y then x else y)"

definition GET_SIZE :: "memory \<Rightarrow> addr \<Rightarrow> 32 word" where
  "GET_SIZE m p = GET m p AND NOT 7"

definition GET_ALLOC :: "memory \<Rightarrow> addr \<Rightarrow> 32 word" where
  "GET_ALLOC m p = GET m p AND 1"

definition GET_PREV_ALLOC :: "memory \<Rightarrow> addr \<Rightarrow> 32 word" where
  "GET_PREV_ALLOC m p = GET m p AND 2"

definition HDRP :: "addr \<Rightarrow> addr" where
  "HDRP bp = bp - 4"

definition FTRP :: "memory \<Rightarrow> addr \<Rightarrow> addr" where
  "FTRP m bp = bp + unat (GET_SIZE m (HDRP bp)) - 8"

definition NEXT_BLKP :: "memory \<Rightarrow> addr \<Rightarrow> addr" where
  "NEXT_BLKP m bp = bp + unat (GET_SIZE m (bp - 4))"

definition PREV_BLKP :: "memory \<Rightarrow> addr \<Rightarrow> addr" where
  "PREV_BLKP m bp = bp - unat (GET_SIZE m (bp - 8))"

definition SIZE_PTR :: "addr \<Rightarrow> addr" where
  "SIZE_PTR p = p - 8"

definition GET_PREVP :: "memory \<Rightarrow> addr \<Rightarrow> 64 word" where
  "GET_PREVP m p = GET_8B m p"

definition GET_NEXTP :: "memory \<Rightarrow> addr \<Rightarrow> 64 word" where
  "GET_NEXTP m p = GET_8B m (p + 8)"

definition SET_PREVP :: "memory \<Rightarrow> addr \<Rightarrow> 64 word \<Rightarrow> memory" where
  "SET_PREVP m p v = PUT_8B m p v"

definition SET_NEXTP :: "memory \<Rightarrow> addr \<Rightarrow> 64 word \<Rightarrow> memory" where
  "SET_NEXTP m p v = PUT_8B m (p + 8) v"

section \<open>Allocator state and the heap primitive\<close>

text \<open>
  The state of the program: the memory, the two globals of \<^verbatim>\<open>mm.c\<close>, and the state
  of the heap primitive (the current break and the highest break it grants).
\<close>

record heap =
  mem :: memory
  heap_listp :: addr
  seg_free_listp :: addr
  mem_brk :: addr
  mem_max_addr :: addr

text \<open>The failure sentinel \<^verbatim>\<open>(void *)-1\<close>.\<close>

definition SBRK_FAIL :: addr where
  "SBRK_FAIL = 2 ^ 64 - 1"

text \<open>
  Modelled from the spec: \<^verbatim>\<open>mem_sbrk\<close> of \<^verbatim>\<open>memlib.c\<close>, which is not among the
  sources.  It extends the heap by \<open>incr\<close> bytes and returns the break before the
  extension, or refuses, changes nothing and returns the failure sentinel.  It refuses
  exactly when the new break would pass \<open>mem_max_addr\<close>.
\<close>

definition mem_sbrk :: "heap \<Rightarrow> 64 word \<Rightarrow> addr \<times> heap" where
  "mem_sbrk s incr =
     (if mem_brk s + unat incr > mem_max_addr s then (SBRK_FAIL, s)
      else (mem_brk s, s\<lparr>mem_brk := mem_brk s + unat incr\<rparr>))"

section \<open>Segregated free lists\<close>

definition get_root :: "heap \<Rightarrow> 64 word \<Rightarrow> addr" where
  "get_root s sz =
     (let i = (if sz \<le> 32 then 0
               else if sz \<le> 64 then 1
               else if sz \<le> 128 then 2
               else if sz \<le> 256 then 3
               else if sz \<le> 512 then 4
               else if sz \<le> 1024 then 5
               else if sz \<le> 2048 then 6
               else if sz \<le> 4096 then 7
               else if sz \<le> 8192 then 8
               else 9 :: nat)
      in seg_free_listp s + i * 8)"

definition remove_from_free_list :: "heap \<Rightarrow> addr \<Rightarrow> heap" where
  "remove_from_free_list s bp =
     (if bp = 0 \<or> GET_ALLOC (mem s) (HDRP bp) \<noteq> 0 then s
      else
        let root = get_root s (ucast (GET_SIZE (mem s) (HDRP bp)));
            prev = unat (GET_PREVP (mem s) bp);
            next = unat (GET_NEXTP (mem s) bp);
            m1 = SET_PREVP (mem s) bp 0;
            m2 = SET_NEXTP m1 bp 0
        in if prev = 0 \<and> next = 0 then s\<lparr>mem := PUT_8B m2 root 0\<rparr>
           else if prev \<noteq> 0 \<and> next = 0 then s\<lparr>mem := SET_NEXTP m2 prev 0\<rparr>
           else if prev = 0 \<and> next \<noteq> 0 then
             s\<lparr>mem := PUT_8B (SET_PREVP m2 next 0) root (of_nat next)\<rparr>
           else s\<lparr>mem := SET_NEXTP (SET_PREVP m2 next (of_nat prev)) prev (of_nat next)\<rparr>)"

text \<open>
  The search loop of \<^verbatim>\<open>insert_to_free_list\<close>: it returns the final \<open>(prev, next)\<close>.
  On a cyclic list it does not return, which is the value \<open>None\<close>.
\<close>

partial_function (option) insert_scan ::
  "memory \<Rightarrow> 64 word \<Rightarrow> addr \<Rightarrow> addr \<Rightarrow> (addr \<times> addr) option" where
  "insert_scan m sz prev next =
     (if next = 0 then Some (prev, next)
      else if ucast (GET_SIZE m (HDRP next)) \<ge> sz then Some (prev, next)
      else insert_scan m sz next (unat (GET_NEXTP m next)))"

definition insert_to_free_list :: "heap \<Rightarrow> addr \<Rightarrow> heap option" where
  "insert_to_free_list s bp =
     (if bp = 0 then Some s
      else
        let sz = ucast (GET_SIZE (mem s) (HDRP bp)) :: 64 word;
            root = get_root s sz
        in do {
          (prev, next) \<leftarrow> insert_scan (mem s) sz root (unat (GET_8B (mem s) root));
          let m = mem s in
          if prev = root \<and> next = 0 then
            Some (s\<lparr>mem := SET_NEXTP (SET_PREVP (PUT_8B m root (of_nat bp)) bp 0) bp (of_nat next)\<rparr>)
          else if prev \<noteq> root \<and> next = 0 then
            Some (s\<lparr>mem := SET_NEXTP (SET_NEXTP (SET_PREVP m bp (of_nat prev)) bp (of_nat next))
                             prev (of_nat bp)\<rparr>)
          else if prev = root \<and> next \<noteq> 0 then
            Some (s\<lparr>mem := SET_PREVP (SET_NEXTP (SET_PREVP (PUT_8B m root (of_nat bp)) bp 0)
                             bp (of_nat next)) next (of_nat bp)\<rparr>)
          else
            Some (s\<lparr>mem := SET_PREVP (SET_NEXTP (SET_NEXTP (SET_PREVP m bp (of_nat prev))
                             bp (of_nat next)) prev (of_nat bp)) next (of_nat bp)\<rparr>)
        })"

section \<open>Coalescing and extension\<close>

definition coalesce :: "heap \<Rightarrow> addr \<Rightarrow> (addr \<times> heap) option" where
  "coalesce s bp =
     (let prev_alloc = GET_PREV_ALLOC (mem s) (HDRP bp);
          next_alloc = GET_ALLOC (mem s) (HDRP (NEXT_BLKP (mem s) bp));
          sz = ucast (GET_SIZE (mem s) (HDRP bp)) :: 64 word;
          prev_bp = PREV_BLKP (mem s) bp;
          next_bp = NEXT_BLKP (mem s) bp
      in
      if prev_alloc \<noteq> 0 \<and> next_alloc \<noteq> 0 then
        do { s' \<leftarrow> insert_to_free_list s bp; Some (bp, s') }
      else if prev_alloc \<noteq> 0 \<and> next_alloc = 0 then
        let s1 = remove_from_free_list s next_bp;
            next_size = ucast (GET_SIZE (mem s1) (HDRP (NEXT_BLKP (mem s1) bp))) :: 64 word;
            sz' = sz + next_size;
            m2 = PUT (mem s1) (HDRP bp) (ucast (PACK sz' 2));
            m3 = PUT m2 (FTRP m2 bp) (GET m2 (HDRP bp))
        in do { s' \<leftarrow> insert_to_free_list (s1\<lparr>mem := m3\<rparr>) bp; Some (bp, s') }
      else if prev_alloc = 0 \<and> next_alloc \<noteq> 0 then
        let s1 = remove_from_free_list s prev_bp;
            prev_size = ucast (GET_SIZE (mem s1) (HDRP prev_bp)) :: 64 word;
            sz' = sz + prev_size;
            bp' = prev_bp;
            m2 = PUT (mem s1) (HDRP bp')
                   (ucast (PACK sz' (ucast (GET_PREV_ALLOC (mem s1) (HDRP prev_bp)))));
            m3 = PUT m2 (FTRP m2 bp') (GET m2 (HDRP bp'))
        in do { s' \<leftarrow> insert_to_free_list (s1\<lparr>mem := m3\<rparr>) bp'; Some (bp', s') }
      else
        let s1 = remove_from_free_list s prev_bp;
            s2 = remove_from_free_list s1 next_bp;
            prev_size = ucast (GET_SIZE (mem s2) (HDRP prev_bp)) :: 64 word;
            next_size = ucast (GET_SIZE (mem s2) (HDRP next_bp)) :: 64 word;
            sz' = sz + (prev_size + next_size);
            bp' = prev_bp;
            m3 = PUT (mem s2) (HDRP prev_bp)
                   (ucast (PACK sz' (ucast (GET_PREV_ALLOC (mem s2) (HDRP prev_bp)))));
            m4 = PUT m3 (FTRP m3 prev_bp) (GET m3 (HDRP bp'))
        in do { s' \<leftarrow> insert_to_free_list (s2\<lparr>mem := m4\<rparr>) bp'; Some (bp', s') })"

definition extend_heap :: "heap \<Rightarrow> 64 word \<Rightarrow> (addr \<times> heap) option" where
  "extend_heap s words =
     (let sz = (if words mod 2 \<noteq> 0 then (words + 1) * 4 else words * 4);
          (bp, s1) = mem_sbrk s sz
      in if bp = SBRK_FAIL then Some (0, s1)
         else
           let m1 = PUT (mem s1) (HDRP bp)
                      (ucast (PACK sz (ucast (GET_PREV_ALLOC (mem s1) (HDRP bp)))));
               m2 = PUT m1 (FTRP m1 bp) (GET m1 (HDRP bp));
               m3 = PUT m2 (HDRP (NEXT_BLKP m2 bp)) (PACK 0 1);
               m4 = SET_PREVP m3 bp 0;
               m5 = SET_NEXTP m4 bp 0
           in coalesce (s1\<lparr>mem := m5\<rparr>) bp)"

section \<open>The allocation interface\<close>

text \<open>\<^verbatim>\<open>mm_init\<close> returns \<open>-1\<close> on error and \<open>0\<close> on success.\<close>

definition mm_init :: "heap \<Rightarrow> (int \<times> heap) option" where
  "mm_init s =
     (let (p, s1) = mem_sbrk s (12 * 8);
          s2 = s1\<lparr>heap_listp := p\<rparr>
      in if p = SBRK_FAIL then Some (- 1, s2)
         else
           let m0 = PUT_8B (mem s2) p 0;
               m1 = PUT_8B m0 (p + 1 * 8) 0;
               m2 = PUT_8B m1 (p + 2 * 8) 0;
               m3 = PUT_8B m2 (p + 3 * 8) 0;
               m4 = PUT_8B m3 (p + 4 * 8) 0;
               m5 = PUT_8B m4 (p + 5 * 8) 0;
               m6 = PUT_8B m5 (p + 6 * 8) 0;
               m7 = PUT_8B m6 (p + 7 * 8) 0;
               m8 = PUT_8B m7 (p + 8 * 8) 0;
               m9 = PUT_8B m8 (p + 9 * 8) 0;
               m10 = PUT m9 (p + 10 * 8) 0;
               m11 = PUT m10 (p + (10 * 8 + 4)) (PACK 8 1);
               m12 = PUT m11 (p + 11 * 8) (PACK 8 1);
               m13 = PUT m12 (p + (11 * 8 + 4)) (PACK 0 3);
               s3 = s2\<lparr>mem := m13, seg_free_listp := p, heap_listp := p + 11 * 8\<rparr>
           in do {
             (r, s4) \<leftarrow> extend_heap s3 (4096 div 4);
             if r = 0 then Some (- 1, s4) else Some (0, s4)
           })"

text \<open>
  The inner loop of \<^verbatim>\<open>find_fit\<close> walks one list and returns the first block that is
  large enough, or \<^verbatim>\<open>NULL\<close> at the end of the list.  The outer loop moves the root
  cursor up until it reaches \<^verbatim>\<open>heap_listp - DSIZE\<close>.
\<close>

partial_function (option) find_fit_list :: "memory \<Rightarrow> 64 word \<Rightarrow> addr \<Rightarrow> addr option" where
  "find_fit_list m asize bp =
     (if bp = 0 then Some 0
      else if ucast (GET_SIZE m (HDRP bp)) \<ge> asize then Some bp
      else find_fit_list m asize (unat (GET_NEXTP m bp)))"

partial_function (option) find_fit_roots :: "heap \<Rightarrow> 64 word \<Rightarrow> addr \<Rightarrow> addr option" where
  "find_fit_roots s asize root =
     (if root = heap_listp s - 8 then Some 0
      else do {
        bp \<leftarrow> find_fit_list (mem s) asize (unat (GET_8B (mem s) root));
        if bp \<noteq> 0 then Some bp else find_fit_roots s asize (root + 8)
      })"

definition find_fit :: "heap \<Rightarrow> 64 word \<Rightarrow> addr option" where
  "find_fit s asize = find_fit_roots s asize (get_root s asize)"

definition place :: "heap \<Rightarrow> addr \<Rightarrow> 64 word \<Rightarrow> heap option" where
  "place s bp asize =
     (let csize = ucast (GET_SIZE (mem s) (HDRP bp)) :: 64 word;
          s1 = remove_from_free_list s bp;
          rsize = csize - asize
      in if rsize \<ge> 3 * 8 then
           let m1 = PUT (mem s1) (HDRP bp)
                      (ucast (PACK asize (ucast (GET_PREV_ALLOC (mem s1) (HDRP bp) OR 1))));
               new_bp = NEXT_BLKP m1 bp;
               m2 = PUT m1 (HDRP new_bp) (ucast (PACK rsize 2));
               m3 = PUT m2 (FTRP m2 new_bp) (ucast (PACK rsize 2));
               m4 = SET_PREVP m3 new_bp 0;
               m5 = SET_NEXTP m4 new_bp 0
           in insert_to_free_list (s1\<lparr>mem := m5\<rparr>) new_bp
         else
           let m1 = PUT (mem s1) (HDRP bp)
                      (ucast (PACK csize (ucast (GET_PREV_ALLOC (mem s1) (HDRP bp) OR 1))));
               next_bp = NEXT_BLKP m1 bp;
               m2 = PUT m1 (HDRP next_bp) (GET m1 (HDRP next_bp) OR 2);
               m3 = (if GET_ALLOC m2 (HDRP next_bp) = 0
                     then PUT m2 (FTRP m2 next_bp) (GET m2 (HDRP next_bp)) else m2)
           in Some (s1\<lparr>mem := m3\<rparr>))"

text \<open>The adjusted block size \<^verbatim>\<open>asize\<close> that \<^verbatim>\<open>malloc\<close> computes from the request.\<close>

definition malloc_asize :: "64 word \<Rightarrow> 64 word" where
  "malloc_asize sz = (if sz \<le> 2 * 8 then 3 * 8 else 8 * ((sz + 4 + (8 - 1)) div 8))"

definition malloc :: "heap \<Rightarrow> 64 word \<Rightarrow> (addr \<times> heap) option" where
  "malloc s sz =
     do {
       s1 \<leftarrow> (if heap_listp s = 0 then map_option snd (mm_init s) else Some s);
       if sz = 0 then Some (0, s1)
       else
         let asize = malloc_asize sz in
         do {
           bp \<leftarrow> find_fit s1 asize;
           if bp \<noteq> 0 then do { s2 \<leftarrow> place s1 bp asize; Some (bp, s2) }
           else
             let extendsize = MAX2 asize 4096 in
             do {
               (bp, s2) \<leftarrow> extend_heap s1 (extendsize div 4);
               if bp = 0 then Some (0, s2)
               else do { s3 \<leftarrow> place s2 bp asize; Some (bp, s3) }
             }
         }
     }"

definition free :: "heap \<Rightarrow> addr \<Rightarrow> heap option" where
  "free s bp =
     (if bp = 0 then Some s
      else
        let next_bp = NEXT_BLKP (mem s) bp;
            m1 = PUT (mem s) (HDRP bp)
                   (GET_SIZE (mem s) (HDRP bp) OR GET_PREV_ALLOC (mem s) (HDRP bp));
            m2 = PUT m1 (FTRP m1 bp) (GET m1 (HDRP bp));
            m3 = SET_PREVP m2 bp 0;
            m4 = SET_NEXTP m3 bp 0;
            m5 = PUT m4 (HDRP next_bp) (GET_SIZE m4 (HDRP next_bp) OR GET_ALLOC m4 (HDRP next_bp))
        in map_option snd (coalesce (s\<lparr>mem := m5\<rparr>) bp))"

definition realloc :: "heap \<Rightarrow> addr \<Rightarrow> 64 word \<Rightarrow> (addr \<times> heap) option" where
  "realloc s oldptr sz =
     (if sz = 0 then do { s1 \<leftarrow> free s oldptr; Some (0, s1) }
      else if oldptr = 0 then malloc s sz
      else do {
        (newptr, s1) \<leftarrow> malloc s sz;
        if newptr = 0 then Some (0, s1)
        else
          let oldsize = GET_8B (mem s1) (SIZE_PTR oldptr);
              oldsize' = (if sz < oldsize then sz else oldsize);
              m1 = memcpy (mem s1) newptr oldptr (unat oldsize')
          in do { s2 \<leftarrow> free (s1\<lparr>mem := m1\<rparr>) oldptr; Some (newptr, s2) }
      })"

definition calloc :: "heap \<Rightarrow> 64 word \<Rightarrow> 64 word \<Rightarrow> (addr \<times> heap) option" where
  "calloc s nmemb sz =
     (let bytes = nmemb * sz in
      do {
        (newptr, s1) \<leftarrow> malloc s bytes;
        Some (newptr, s1\<lparr>mem := memset (mem s1) newptr 0 (unat bytes)\<rparr>)
      })"

section \<open>Heap invariants\<close>

text \<open>Size and flags of the block with payload address \<open>b\<close>, read from its header.\<close>

definition bsize :: "memory \<Rightarrow> addr \<Rightarrow> nat" where
  "bsize m b = unat (GET_SIZE m (HDRP b))"

definition balloc :: "memory \<Rightarrow> addr \<Rightarrow> bool" where
  "balloc m b \<longleftrightarrow> GET_ALLOC m (HDRP b) \<noteq> 0"

definition bprev :: "memory \<Rightarrow> addr \<Rightarrow> bool" where
  "bprev m b \<longleftrightarrow> GET_PREV_ALLOC m (HDRP b) \<noteq> 0"

text \<open>The index of the size class of a block size (the \<open>i\<close> of \<^verbatim>\<open>get_root\<close>).\<close>

definition bucket :: "nat \<Rightarrow> nat" where
  "bucket n =
     (if n \<le> 32 then 0 else if n \<le> 64 then 1 else if n \<le> 128 then 2 else if n \<le> 256 then 3
      else if n \<le> 512 then 4 else if n \<le> 1024 then 5 else if n \<le> 2048 then 6
      else if n \<le> 4096 then 7 else if n \<le> 8192 then 8 else 9)"

text \<open>
  \<open>struct_ok s B\<close>: the blocks with payload addresses \<open>B\<close> tile the heap from the
  prologue to the epilogue (I1, I3, I7 and the sizes of I2).
\<close>

definition struct_ok :: "heap \<Rightarrow> addr set \<Rightarrow> bool" where
  "struct_ok s B \<longleftrightarrow>
     0 < seg_free_listp s \<and> 8 dvd seg_free_listp s
     \<and> heap_listp s = seg_free_listp s + 88
     \<and> seg_free_listp s + 96 \<le> mem_brk s \<and> 8 dvd mem_brk s
     \<and> mem_brk s \<le> mem_max_addr s
     \<and> mem_max_addr s < seg_free_listp s + 2 ^ 32 \<and> mem_max_addr s < 2 ^ 64 - 1
     \<and> GET (mem s) (seg_free_listp s + 84) = 9 \<and> GET (mem s) (seg_free_listp s + 88) = 9
     \<and> bsize (mem s) (mem_brk s) = 0 \<and> balloc (mem s) (mem_brk s)
     \<and> bprev (mem s) (seg_free_listp s + 96)
     \<and> (seg_free_listp s + 96 = mem_brk s \<or> seg_free_listp s + 96 \<in> B)
     \<and> (\<forall>b\<in>B. seg_free_listp s + 96 \<le> b \<and> 8 dvd b \<and> 24 \<le> bsize (mem s) b
            \<and> b + bsize (mem s) b \<le> mem_brk s
            \<and> (b + bsize (mem s) b = mem_brk s \<or> b + bsize (mem s) b \<in> B)
            \<and> (bprev (mem s) (b + bsize (mem s) b) \<longleftrightarrow> balloc (mem s) b)
            \<and> (b = seg_free_listp s + 96 \<or> (\<exists>p\<in>B. p + bsize (mem s) p = b))
            \<and> (balloc (mem s) b \<or> GET_SIZE (mem s) (FTRP (mem s) b) = GET_SIZE (mem s) (HDRP b))
            \<and> (\<forall>b'\<in>B. b < b' \<longrightarrow> b + bsize (mem s) b \<le> b'))"

text \<open>
  \<open>coalesced s B X\<close>: every free block outside \<open>X\<close> follows an allocated block and its
  footer is a copy of its header (I2, I4).
\<close>

definition coalesced :: "heap \<Rightarrow> addr set \<Rightarrow> addr set \<Rightarrow> bool" where
  "coalesced s B X \<longleftrightarrow>
     (\<forall>b\<in>B. b \<in> X \<or> balloc (mem s) b
        \<or> (bprev (mem s) b \<and> GET (mem s) (FTRP (mem s) b) = GET (mem s) (HDRP b)))"

text \<open>A doubly linked list segment: the nodes \<open>xs\<close>, entered from \<open>p\<close>, left to \<open>q\<close>.\<close>

fun hd_or :: "addr list \<Rightarrow> addr \<Rightarrow> addr" where
  "hd_or [] q = q"
| "hd_or (x # xs) q = x"

fun last_or :: "addr list \<Rightarrow> addr \<Rightarrow> addr" where
  "last_or [] p = p"
| "last_or (x # xs) p = last_or xs x"

fun dlseg :: "memory \<Rightarrow> addr \<Rightarrow> addr list \<Rightarrow> addr \<Rightarrow> bool" where
  "dlseg m p [] q = True"
| "dlseg m p (x # xs) q \<longleftrightarrow>
     unat (GET_PREVP m x) = p \<and> unat (GET_NEXTP m x) = hd_or xs q \<and> dlseg m x xs q"

text \<open>
  \<open>lists_ok s B L U\<close>: the ten lists \<open>L 0\<close>, ..., \<open>L 9\<close> are the null-terminated,
  doubly linked, size-sorted lists held by the ten roots, and together they hold exactly
  the free blocks that are not in \<open>U\<close>, each in the list of its size class (I5, I6).
\<close>

definition lists_ok :: "heap \<Rightarrow> addr set \<Rightarrow> (nat \<Rightarrow> addr list) \<Rightarrow> addr set \<Rightarrow> bool" where
  "lists_ok s B L U \<longleftrightarrow>
     (\<forall>i<10. dlseg (mem s) 0 (L i) 0
        \<and> unat (GET_8B (mem s) (seg_free_listp s + 8 * i)) = hd_or (L i) 0
        \<and> distinct (L i)
        \<and> sorted_wrt (\<lambda>x y. bsize (mem s) x \<le> bsize (mem s) y) (L i)
        \<and> (\<forall>x\<in>set (L i). x \<in> B \<and> \<not> balloc (mem s) x \<and> x \<notin> U \<and> bucket (bsize (mem s) x) = i))
     \<and> (\<forall>b\<in>B. balloc (mem s) b \<or> b \<in> U \<or> b \<in> set (L (bucket (bsize (mem s) b))))"

text \<open>The invariant between two public calls.\<close>

definition heap_ok :: "heap \<Rightarrow> addr set \<Rightarrow> (nat \<Rightarrow> addr list) \<Rightarrow> bool" where
  "heap_ok s B L \<longleftrightarrow> struct_ok s B \<and> coalesced s B {} \<and> lists_ok s B L {}"

text \<open>The header word of a block of \<open>n\<close> bytes with the two flags.\<close>

definition mkhdr :: "nat \<Rightarrow> bool \<Rightarrow> bool \<Rightarrow> 32 word" where
  "mkhdr n pa al = of_nat n OR (if pa then 2 else 0) OR (if al then 1 else 0)"

section \<open>Example states\<close>

text \<open>A small state in which the word at address 100 is the header of an allocated block.\<close>

definition s_ex :: heap where
  "s_ex = \<lparr>mem = PUT (\<lambda>_. 0) 100 27, heap_listp = 88, seg_free_listp = 0,
            mem_brk = 200, mem_max_addr = 200\<rparr>"

text \<open>The bytes of the root cells and of the link fields of the free blocks.\<close>

definition linkarea :: "heap \<Rightarrow> addr set \<Rightarrow> addr set" where
  "linkarea s B = {a. seg_free_listp s \<le> a \<and> a < seg_free_listp s + 80}
     \<union> {a. \<exists>b\<in>B. \<not> balloc (mem s) b \<and> b \<le> a \<and> a < b + 16}"

text \<open>The memory after the four cases of \<^verbatim>\<open>insert_to_free_list\<close> put \<open>b\<close> between \<open>xs\<close> and
  \<open>ys\<close> in the list \<open>xs @ ys\<close> whose root cell is at \<open>r\<close>.\<close>

definition insert_mem :: "memory \<Rightarrow> addr \<Rightarrow> addr \<Rightarrow> addr \<Rightarrow> addr \<Rightarrow> memory" where
  "insert_mem m root bp prev next =
     (if prev = root \<and> next = 0 then
        SET_NEXTP (SET_PREVP (PUT_8B m root (of_nat bp)) bp 0) bp (of_nat next)
      else if prev \<noteq> root \<and> next = 0 then
        SET_NEXTP (SET_NEXTP (SET_PREVP m bp (of_nat prev)) bp (of_nat next)) prev (of_nat bp)
      else if prev = root \<and> next \<noteq> 0 then
        SET_PREVP (SET_NEXTP (SET_PREVP (PUT_8B m root (of_nat bp)) bp 0) bp (of_nat next))
          next (of_nat bp)
      else
        SET_PREVP (SET_NEXTP (SET_NEXTP (SET_PREVP m bp (of_nat prev)) bp (of_nat next))
          prev (of_nat bp)) next (of_nat bp))"

text \<open>
  \<open>replaced s B m' lo hi N\<close>: in the memory \<open>m'\<close> the blocks \<open>N\<close> tile the bytes from the
  block \<open>lo\<close> up to \<open>hi\<close> (a block of \<open>B\<close> or the epilogue), and nothing outside that range
  but the flag for the previous block in the header at \<open>hi\<close> differs from the memory
  of \<open>s\<close>.
\<close>

definition replaced :: "heap \<Rightarrow> addr set \<Rightarrow> memory \<Rightarrow> addr \<Rightarrow> addr \<Rightarrow> addr set \<Rightarrow> bool" where
  "replaced s B m' lo hi N \<longleftrightarrow>
     lo \<in> B \<and> lo < hi \<and> (hi \<in> B \<or> hi = mem_brk s)
     \<and> (\<forall>a. a < lo - 4 \<or> hi \<le> a \<longrightarrow> m' a = mem s a)
     \<and> bsize m' hi = bsize (mem s) hi \<and> balloc m' hi = balloc (mem s) hi
     \<and> bprev m' lo = bprev (mem s) lo
     \<and> lo \<in> N \<and> (\<exists>p\<in>N. p + bsize m' p = hi)
     \<and> (\<forall>b\<in>N. lo \<le> b \<and> 8 dvd b \<and> 24 \<le> bsize m' b \<and> b + bsize m' b \<le> hi
            \<and> (b + bsize m' b = hi \<or> b + bsize m' b \<in> N)
            \<and> (bprev m' (b + bsize m' b) \<longleftrightarrow> balloc m' b)
            \<and> (b = lo \<or> (\<exists>p\<in>N. p + bsize m' p = b))
            \<and> (balloc m' b \<or> GET_SIZE m' (FTRP m' b) = GET_SIZE m' (HDRP b))
            \<and> (\<forall>b'\<in>N. b < b' \<longrightarrow> b + bsize m' b \<le> b'))"

definition rep_set :: "addr set \<Rightarrow> addr \<Rightarrow> addr \<Rightarrow> addr set \<Rightarrow> addr set" where
  "rep_set B lo hi N = {b \<in> B. b < lo \<or> hi \<le> b} \<union> N"

text \<open>
  \<open>keeps X s B s' B'\<close>: but for the blocks in \<open>X\<close>, the two states have the same allocated
  blocks, of the same sizes and with the same payload bytes.
\<close>

definition keeps :: "addr set \<Rightarrow> heap \<Rightarrow> addr set \<Rightarrow> heap \<Rightarrow> addr set \<Rightarrow> bool" where
  "keeps X s B s' B' \<longleftrightarrow>
     (\<forall>b\<in>B. b \<in> X \<or> \<not> balloc (mem s) b
        \<or> (b \<in> B' \<and> balloc (mem s') b \<and> bsize (mem s') b = bsize (mem s) b
            \<and> (\<forall>a. b \<le> a \<and> a < b + bsize (mem s) b - 4 \<longrightarrow> mem s' a = mem s a)))
     \<and> (\<forall>b\<in>B'. b \<in> X \<or> \<not> balloc (mem s') b \<or> (b \<in> B \<and> balloc (mem s) b))"

text \<open>
  \<open>pre_coalesce s B L u\<close>: the state in which \<^verbatim>\<open>coalesce\<close> is called on the block \<open>u\<close>.
  The block is free, has a footer and is in no list; its neighbours may be free.
\<close>

definition pre_coalesce :: "heap \<Rightarrow> addr set \<Rightarrow> (nat \<Rightarrow> addr list) \<Rightarrow> addr \<Rightarrow> bool" where
  "pre_coalesce s B L u \<longleftrightarrow>
     struct_ok s B \<and> coalesced s B {u, u + bsize (mem s) u} \<and> lists_ok s B L {u}
     \<and> u \<in> B \<and> \<not> balloc (mem s) u
     \<and> GET (mem s) (FTRP (mem s) u) = GET (mem s) (HDRP u)"

(*DEFS-END*)

section \<open>Memory accesses\<close>

lemma GET_PUT_same: "GET (PUT m p v) p = v"
  unfolding GET_def PUT_def
  apply (rule bit_word_eqI)
  apply (auto simp add: bit_simps)
  apply (rule ccontr)
  apply (subgoal_tac "24 + (n - 24) = n")
   apply simp
  apply arith
  done

lemma bind_Some_map: "(x \<bind> (\<lambda>a. Some (f a))) = map_option f x"
  by (cases x) simp_all

lemma PUT_other_byte: "a < p \<or> p + 4 \<le> a \<Longrightarrow> PUT m p v a = m a"
  by (auto simp: PUT_def)

lemma GET_cong: "(\<And>a. p \<le> a \<Longrightarrow> a < p + 4 \<Longrightarrow> m' a = m a) \<Longrightarrow> GET m' p = GET m p"
  by (simp add: GET_def)

lemma GET_PUT_other: "p + 4 \<le> q \<or> q + 4 \<le> p \<Longrightarrow> GET (PUT m p v) q = GET m q"
  by (rule GET_cong) (auto simp: PUT_other_byte)

lemma bit8: "bit (w :: 8 word) n \<Longrightarrow> n < 8"
  by (auto dest: bit_imp_le_length)

lemma GET_byte0: "m p = ucast (GET m p)"
  unfolding GET_def by (rule bit_word_eqI) (auto simp add: bit_simps)

lemma GET_byte1: "m (p + 1) = ucast (drop_bit 8 (GET m p))"
  unfolding GET_def by (rule bit_word_eqI) (auto simp add: bit_simps dest: bit8)

lemma GET_byte2: "m (p + 2) = ucast (drop_bit 16 (GET m p))"
  unfolding GET_def by (rule bit_word_eqI) (auto simp add: bit_simps dest: bit8)

lemma GET_byte3: "m (p + 3) = ucast (drop_bit 24 (GET m p))"
  unfolding GET_def by (rule bit_word_eqI) (auto simp add: bit_simps dest: bit8)

lemma GET_eq_bytes:
  assumes "GET m' p = GET m p" and "p \<le> a" and "a < p + 4"
  shows "m' a = m a"
proof -
  from assms(2,3) consider "a = p" | "a = p + 1" | "a = p + 2" | "a = p + 3" by linarith
  then show ?thesis
  proof cases
    case 1
    have "m' p = ucast (GET m' p)" by (rule GET_byte0)
    also have "\<dots> = m p" unfolding assms(1) by (rule GET_byte0 [symmetric])
    finally show ?thesis using 1 by simp
  next
    case 2
    have "m' (p + 1) = ucast (drop_bit 8 (GET m' p))" by (rule GET_byte1)
    also have "\<dots> = m (p + 1)" unfolding assms(1) by (rule GET_byte1 [symmetric])
    finally show ?thesis using 2 by simp
  next
    case 3
    have "m' (p + 2) = ucast (drop_bit 16 (GET m' p))" by (rule GET_byte2)
    also have "\<dots> = m (p + 2)" unfolding assms(1) by (rule GET_byte2 [symmetric])
    finally show ?thesis using 3 by simp
  next
    case 4
    have "m' (p + 3) = ucast (drop_bit 24 (GET m' p))" by (rule GET_byte3)
    also have "\<dots> = m (p + 3)" unfolding assms(1) by (rule GET_byte3 [symmetric])
    finally show ?thesis using 4 by simp
  qed
qed

lemma bit32: "bit (w :: 32 word) n \<Longrightarrow> n < 32"
  by (auto dest: bit_imp_le_length)

lemma GET_8B_PUT_8B_same: "GET_8B (PUT_8B m p v) p = v"
  unfolding GET_8B_def PUT_8B_def
  apply (simp add: GET_PUT_same GET_PUT_other)
  apply (rule bit_word_eqI)
  apply (auto simp add: bit_simps)
  done

lemma PUT_8B_other_byte: "a < p \<or> p + 8 \<le> a \<Longrightarrow> PUT_8B m p v a = m a"
  by (auto simp: PUT_8B_def PUT_other_byte)

lemma GET_8B_cong: "(\<And>a. p \<le> a \<Longrightarrow> a < p + 8 \<Longrightarrow> m' a = m a) \<Longrightarrow> GET_8B m' p = GET_8B m p"
  unfolding GET_8B_def
  by (simp add: GET_cong [of p m' m] GET_cong [of "p + 4" m' m])

lemma GET_8B_PUT_8B_other: "p + 8 \<le> q \<or> q + 8 \<le> p \<Longrightarrow> GET_8B (PUT_8B m p v) q = GET_8B m q"
  by (rule GET_8B_cong) (auto simp: PUT_8B_other_byte)

lemma GET_8B_PUT_other: "p + 4 \<le> q \<or> q + 8 \<le> p \<Longrightarrow> GET_8B (PUT m p v) q = GET_8B m q"
  by (rule GET_8B_cong) (auto simp: PUT_other_byte)

lemma GET_PUT_8B_other: "p + 8 \<le> q \<or> q + 4 \<le> p \<Longrightarrow> GET (PUT_8B m p v) q = GET m q"
  by (rule GET_cong) (auto simp: PUT_8B_other_byte)

section \<open>Header words\<close>

lemma bit7_int: "bit (7 :: int) n \<longleftrightarrow> n < 3"
proof -
  have e: "(7 :: int) = mask 3" by (simp add: mask_eq_exp_minus_1)
  show ?thesis by (subst e) (simp add: bit_mask_iff)
qed

lemma bit3_int: "bit (3 :: int) n \<longleftrightarrow> n < 2"
proof -
  have e: "(3 :: int) = mask 2" by (simp add: mask_eq_exp_minus_1)
  show ?thesis by (subst e) (simp add: bit_mask_iff)
qed

lemma bit2_int: "bit (2 :: int) n \<longleftrightarrow> n = 1"
  using bit_exp_iff [where ?'a = int, of 1 n] by auto

lemma bitm8_int: "bit (- 8 :: int) n \<longleftrightarrow> 3 \<le> n"
proof -
  have e: "(- 8 :: int) = NOT 7" by simp
  show ?thesis by (subst e) (auto simp only: bit_not_iff bit7_int possible_bit_int)
qed

lemma dvd8_iff_bits: "8 dvd (n :: nat) \<longleftrightarrow> (\<forall>k<3. \<not> bit n k)"
proof -
  have "8 dvd n \<longleftrightarrow> take_bit 3 n = 0" by (simp add: take_bit_eq_0_iff)
  also have "\<dots> \<longleftrightarrow> (\<forall>k. \<not> bit (take_bit 3 n) k)" by (auto simp: bit_eq_iff)
  also have "\<dots> \<longleftrightarrow> (\<forall>k<3. \<not> bit n k)" by (auto simp: bit_take_bit_iff)
  finally show ?thesis .
qed

lemmas hbits = bit7_int bit2_int bit3_int bitm8_int bit_1_iff bit_and_iff bit_or_iff bit_not_iff
  bit_ucast_iff

lemma bit_dvd8: "8 dvd (n :: nat) \<Longrightarrow> bit n k \<Longrightarrow> 3 \<le> k"
proof -
  assume "8 dvd n" and b: "bit n k"
  then obtain q where "n = push_bit 3 q" by (auto simp: push_bit_eq_mult dvd_def mult.commute)
  with b show "3 \<le> k" by (simp add: bit_push_bit_iff)
qed

lemma and1_neq0: "(h AND 1 \<noteq> 0) = bit (h :: 32 word) 0"
  by (simp add: and_one_eq bit_0 mod_2_eq_odd word_eq_iff_unsigned[where ?'a=nat])

lemma and2_neq0: "(h AND 2 \<noteq> 0) = bit (h :: 32 word) 1"
  unfolding bit_eq_iff by (auto simp add: hbits)

lemma size_dvd8: "8 dvd unat ((h :: 32 word) AND NOT 7)"
  unfolding dvd8_iff_bits by (auto simp: bit_unsigned_iff hbits)

lemma mkhdr_size_word: "8 dvd n \<Longrightarrow> mkhdr n pa al AND NOT 7 = of_nat n"
  unfolding mkhdr_def
  by (rule bit_word_eqI) (auto simp: hbits bit_of_nat_iff dest: bit_dvd8)

lemma mkhdr_size: "8 dvd n \<Longrightarrow> n < 2 ^ 32 \<Longrightarrow> unat (mkhdr n pa al AND NOT 7) = n"
  by (simp only: mkhdr_size_word) (simp add: unat_of_nat)

lemma mkhdr_alloc: "8 dvd n \<Longrightarrow> (mkhdr n pa al AND 1 \<noteq> 0) = al"
  unfolding and1_neq0 mkhdr_def
  by (auto simp: hbits bit_of_nat_iff dest: bit_dvd8)

lemma mkhdr_prev: "8 dvd n \<Longrightarrow> (mkhdr n pa al AND 2 \<noteq> 0) = pa"
  unfolding and2_neq0 mkhdr_def
  by (auto simp: hbits bit_of_nat_iff dest: bit_dvd8)

lemma ucast_size64: "(ucast ((h :: 32 word) AND NOT 7) :: 64 word) = of_nat (unat (h AND NOT 7))"
  by simp

lemma pack_2: "(ucast (PACK (of_nat n :: 64 word) 2) :: 32 word) = mkhdr n True False"
  unfolding PACK_def mkhdr_def
  by (rule bit_word_eqI) (auto simp: hbits bit_of_nat_iff)

lemma pack_prev: "(ucast (PACK (of_nat n :: 64 word) (ucast ((h :: 32 word) AND 2))) :: 32 word)
    = mkhdr n (h AND 2 \<noteq> 0) False"
  unfolding PACK_def mkhdr_def and2_neq0
  by (rule bit_word_eqI) (auto simp: hbits bit_of_nat_iff)

lemma pack_prev1: "(ucast (PACK (of_nat n :: 64 word) (ucast ((h :: 32 word) AND 2 OR 1))) :: 32 word)
    = mkhdr n (h AND 2 \<noteq> 0) True"
  unfolding PACK_def mkhdr_def and2_neq0
  by (rule bit_word_eqI) (auto simp: hbits bit_of_nat_iff)

lemma free_hdr: "((h :: 32 word) AND NOT 7) OR (h AND 2) = mkhdr (unat (h AND NOT 7)) (h AND 2 \<noteq> 0) False"
  unfolding mkhdr_def and2_neq0
  by (rule bit_word_eqI) (auto simp: hbits)

lemma free_next_hdr: "((h :: 32 word) AND NOT 7) OR (h AND 1) = mkhdr (unat (h AND NOT 7)) False (h AND 1 \<noteq> 0)"
  unfolding mkhdr_def and1_neq0
  by (rule bit_word_eqI) (auto simp: hbits)

lemma or2_size: "((h :: 32 word) OR 2) AND NOT 7 = h AND NOT 7"
  by (rule bit_word_eqI) (auto simp: hbits)

lemma or2_alloc: "((h :: 32 word) OR 2) AND 1 = h AND 1"
  by (rule bit_word_eqI) (auto simp: hbits)

lemma or2_prev: "((h :: 32 word) OR 2) AND 2 \<noteq> 0"
  unfolding and2_neq0 by (auto simp: hbits)

section \<open>Doubly linked segments\<close>

lemma hd_or_append: "hd_or (xs @ ys) q = hd_or xs (hd_or ys q)"
  by (cases xs) simp_all

lemma last_or_append: "last_or (xs @ ys) p = last_or ys (last_or xs p)"
  by (induction xs arbitrary: p) simp_all

lemma last_or_in: "xs \<noteq> [] \<Longrightarrow> last_or xs p \<in> set xs"
  by (induction xs arbitrary: p) (auto, metis last_or.simps(1) list.exhaust)

lemma last_or_eq_last: "xs \<noteq> [] \<Longrightarrow> last_or xs p = last xs"
  by (induction xs arbitrary: p) auto

lemma hd_or_in: "xs \<noteq> [] \<Longrightarrow> hd_or xs q \<in> set xs"
  by (cases xs) simp_all

lemma dlseg_append:
  "dlseg m p (xs @ ys) q \<longleftrightarrow> dlseg m p xs (hd_or ys q) \<and> dlseg m (last_or xs p) ys q"
  by (induction xs arbitrary: p) (auto simp: hd_or_append)

text \<open>A segment only depends on the link fields of its nodes; the link into the first
  node and the link out of the last one may be redirected.\<close>

lemma dlseg_redirect:
  assumes "dlseg m p xs q"
    and "\<And>x. x \<in> set xs \<Longrightarrow> x \<noteq> hd_or xs 0 \<Longrightarrow> GET_PREVP m' x = GET_PREVP m x"
    and "\<And>x. x \<in> set xs \<Longrightarrow> x \<noteq> last_or xs 0 \<Longrightarrow> GET_NEXTP m' x = GET_NEXTP m x"
    and "xs \<noteq> [] \<Longrightarrow> unat (GET_PREVP m' (hd_or xs 0)) = p'"
    and "xs \<noteq> [] \<Longrightarrow> unat (GET_NEXTP m' (last_or xs 0)) = q'"
    and "distinct xs"
  shows "dlseg m' p' xs q'"
  using assms
proof (induction xs arbitrary: p p')
  case Nil
  then show ?case by simp
next
  case (Cons x xs)
  show ?case
  proof (cases xs)
    case Nil
    with Cons.prems show ?thesis by simp
  next
    case (Cons y ys)
    have xy: "x \<noteq> y" "x \<notin> set ys" "y \<notin> set ys" using Cons.prems(6) Cons by auto
    have l: "last_or (x # xs) 0 = last_or ys y" using Cons by simp
    have lin: "last_or ys y \<in> set xs" using Cons last_or_in [of "y # ys" x] by simp
    then have lx: "last_or ys y \<noteq> x" using Cons.prems(6) by auto
    have 1: "unat (GET_PREVP m' x) = p'" using Cons.prems(4) by simp
    have 2: "unat (GET_NEXTP m' x) = y"
      using Cons.prems(1) Cons.prems(3) [of x] lx l Cons by simp
    have 3: "dlseg m' x xs q'"
    proof (rule Cons.IH [of x])
      show "dlseg m x xs q" using Cons.prems(1) by simp
      show "GET_PREVP m' z = GET_PREVP m z" if "z \<in> set xs" "z \<noteq> hd_or xs 0" for z
        using that Cons Cons.prems(2) [of z] xy by auto
      show "GET_NEXTP m' z = GET_NEXTP m z" if "z \<in> set xs" "z \<noteq> last_or xs 0" for z
        using that Cons Cons.prems(3) [of z] by auto
      show "unat (GET_PREVP m' (hd_or xs 0)) = x"
        using Cons Cons.prems(1) Cons.prems(2) [of y] xy by simp
      show "unat (GET_NEXTP m' (last_or xs 0)) = q'"
        using Cons Cons.prems(5) by simp
      show "distinct xs" using Cons.prems(6) by simp
    qed
    from 1 2 3 Cons show ?thesis by simp
  qed
qed

lemma dlseg_cong:
  assumes "dlseg m p xs q"
    and "\<And>x. x \<in> set xs \<Longrightarrow> GET_PREVP m' x = GET_PREVP m x \<and> GET_NEXTP m' x = GET_NEXTP m x"
  shows "dlseg m' p xs q"
  using assms by (induction xs arbitrary: p) auto

lemma dlseg_hd_prev: "dlseg m p xs q \<Longrightarrow> xs \<noteq> [] \<Longrightarrow> unat (GET_PREVP m (hd_or xs 0)) = p"
  by (cases xs) simp_all

lemma dlseg_last_next: "dlseg m p xs q \<Longrightarrow> xs \<noteq> [] \<Longrightarrow> unat (GET_NEXTP m (last_or xs 0)) = q"
  apply (induction xs arbitrary: p) apply simp
  subgoal for x xs p by (cases xs) simp_all
  done

section \<open>Removing a block from its list\<close>

lemmas link_defs = GET_PREVP_def GET_NEXTP_def SET_PREVP_def SET_NEXTP_def
lemmas mem_simps = GET_PUT_same GET_PUT_other GET_8B_PUT_8B_same GET_8B_PUT_8B_other
  GET_8B_PUT_other GET_PUT_8B_other PUT_other_byte PUT_8B_other_byte

lemma unat_of_nat64: "n < 2 ^ 64 \<Longrightarrow> unat (of_nat n :: 64 word) = n"
  by (simp add: unat_of_nat)

text \<open>The memory after \<^verbatim>\<open>remove_from_free_list\<close> took \<open>x\<close> out of the list \<open>xs @ x # ys\<close>
  whose root cell is at \<open>r\<close>.\<close>

lemma remove_mem:
  assumes x: "x \<noteq> 0" "\<not> balloc (mem s) x"
    and r: "get_root s (ucast (GET_SIZE (mem s) (HDRP x))) = r"
    and dl: "dlseg (mem s) 0 (xs @ x # ys) 0"
    and nz: "\<And>y. y \<in> set (xs @ x # ys) \<Longrightarrow> 0 < y \<and> y < 2 ^ 64 \<and> r + 8 \<le> y"
    and sep: "\<And>y z. y \<in> set (xs @ x # ys) \<Longrightarrow> z \<in> set (xs @ x # ys) \<Longrightarrow> y \<noteq> z
                \<Longrightarrow> y + 16 \<le> z \<or> z + 16 \<le> y"
    and di: "distinct (xs @ x # ys)"
  shows "\<exists>m'. remove_from_free_list s x = s\<lparr>mem := m'\<rparr>
      \<and> dlseg m' 0 (xs @ ys) 0
      \<and> (xs = [] \<longrightarrow> unat (GET_8B m' r) = hd_or ys 0)
      \<and> GET_PREVP m' x = 0 \<and> GET_NEXTP m' x = 0
      \<and> (\<forall>a. (a < x \<or> x + 16 \<le> a) \<and> (xs = [] \<longrightarrow> a < r \<or> r + 8 \<le> a)
             \<and> (xs \<noteq> [] \<longrightarrow> a < last xs + 8 \<or> last xs + 16 \<le> a)
             \<and> (ys \<noteq> [] \<longrightarrow> a < hd ys \<or> hd ys + 8 \<le> a) \<longrightarrow> m' a = mem s a)"
proof -
  let ?m = "mem s"
  have dx: "dlseg ?m 0 xs x" "unat (GET_PREVP ?m x) = last_or xs 0"
    "unat (GET_NEXTP ?m x) = hd_or ys 0" "dlseg ?m x ys 0"
    using dl by (simp_all add: dlseg_append)
  have nal: "\<not> (GET_ALLOC ?m (HDRP x) \<noteq> 0)" using x(2) by (simp add: balloc_def)
  have xr: "r + 8 \<le> x" "x < 2 ^ 64" using nz [of x] by auto
  have sepx: "z + 16 \<le> x \<or> x + 16 \<le> z" if "z \<in> set xs \<or> z \<in> set ys" for z
    using that sep [of z x] di by auto
  let ?m2 = "SET_NEXTP (SET_PREVP ?m x 0) x 0"
  define p where "p = last_or xs 0"
  define n where "n = hd_or ys 0"
  have p: "0 < p \<and> p < 2 ^ 64 \<and> r + 8 \<le> p \<and> (p + 16 \<le> x \<or> x + 16 \<le> p) \<and> p \<in> set xs"
    if "xs \<noteq> []"
    using that last_or_in [OF that, of 0] nz [of p] sepx [of p] by (auto simp: p_def)
  have n: "0 < n \<and> n < 2 ^ 64 \<and> r + 8 \<le> n \<and> (n + 16 \<le> x \<or> x + 16 \<le> n) \<and> n \<in> set ys"
    if "ys \<noteq> []"
    using that hd_or_in [OF that, of 0] nz [of n] sepx [of n] by (auto simp: n_def)
  have pn: "p + 16 \<le> n \<or> n + 16 \<le> p" if "xs \<noteq> []" "ys \<noteq> []"
    using p n that sep [of p n] di by auto
  define m' where "m' =
    (if xs = [] \<and> ys = [] then PUT_8B ?m2 r 0
     else if xs \<noteq> [] \<and> ys = [] then SET_NEXTP ?m2 p 0
     else if xs = [] \<and> ys \<noteq> [] then PUT_8B (SET_PREVP ?m2 n 0) r (of_nat n)
     else SET_NEXTP (SET_PREVP ?m2 n (of_nat p)) p (of_nat n))"
  have p0: "p = 0 \<longleftrightarrow> xs = []" by (cases "xs = []") (use p in \<open>auto simp: p_def\<close>)
  have n0: "n = 0 \<longleftrightarrow> ys = []" by (cases "ys = []") (use n in \<open>auto simp: n_def\<close>)
  have rem: "remove_from_free_list s x = s\<lparr>mem := m'\<rparr>"
    using x(1) nal dx r p0 n0
    by (simp add: remove_from_free_list_def Let_def m'_def p_def [symmetric] n_def [symmetric])
  have lx: "GET_PREVP m' x = 0" "GET_NEXTP m' x = 0"
    using xr p n pn by (auto simp: m'_def link_defs mem_simps)
  have rt: "unat (GET_8B m' r) = hd_or ys 0" if "xs = []"
    using that xr n n0 by (auto simp: m'_def link_defs mem_simps unat_of_nat64 n_def [symmetric])
  have fr: "m' a = ?m a" if "a < x \<or> x + 16 \<le> a" "xs = [] \<longrightarrow> a < r \<or> r + 8 \<le> a"
    "xs \<noteq> [] \<longrightarrow> a < p + 8 \<or> p + 16 \<le> a" "ys \<noteq> [] \<longrightarrow> a < n \<or> n + 8 \<le> a" for a
    using that by (auto simp: m'_def link_defs mem_simps)
  have cellP: "GET_PREVP m' z = GET_PREVP ?m z"
    if "z + 16 \<le> x \<or> x + 16 \<le> z" "r + 8 \<le> z" "ys \<noteq> [] \<longrightarrow> z + 16 \<le> n \<or> n + 16 \<le> z"
      "xs \<noteq> [] \<longrightarrow> z = p \<or> z + 16 \<le> p \<or> p + 16 \<le> z"
    for z unfolding GET_PREVP_def
    by (rule GET_8B_cong, rule fr) (use that in auto)
  have cellN: "GET_NEXTP m' z = GET_NEXTP ?m z"
    if "z + 16 \<le> x \<or> x + 16 \<le> z" "r + 8 \<le> z" "xs \<noteq> [] \<longrightarrow> z + 16 \<le> p \<or> p + 16 \<le> z"
      "ys \<noteq> [] \<longrightarrow> z = n \<or> z + 16 \<le> n \<or> n + 16 \<le> z"
    for z unfolding GET_NEXTP_def
    by (rule GET_8B_cong, rule fr) (use that in auto)
  have inxs: "r + 8 \<le> z \<and> (z + 16 \<le> x \<or> x + 16 \<le> z)
      \<and> (ys \<noteq> [] \<longrightarrow> z + 16 \<le> n \<or> n + 16 \<le> z) \<and> (z \<noteq> p \<longrightarrow> z + 16 \<le> p \<or> p + 16 \<le> z)"
    if "z \<in> set xs" for z
  proof -
    have "xs \<noteq> []" using that by auto
    then have "p \<in> set xs" using p by simp
    moreover have "ys \<noteq> [] \<Longrightarrow> n \<in> set ys" using n by simp
    ultimately show ?thesis using that nz [of z] sepx [of z] sep [of z n] sep [of z p] di by auto
  qed
  have inys: "r + 8 \<le> z \<and> (z + 16 \<le> x \<or> x + 16 \<le> z)
      \<and> (xs \<noteq> [] \<longrightarrow> z + 16 \<le> p \<or> p + 16 \<le> z) \<and> (z \<noteq> n \<longrightarrow> z + 16 \<le> n \<or> n + 16 \<le> z)"
    if "z \<in> set ys" for z
  proof -
    have "ys \<noteq> []" using that by auto
    then have "n \<in> set ys" using n by simp
    moreover have "xs \<noteq> [] \<Longrightarrow> p \<in> set xs" using p by simp
    ultimately show ?thesis using that nz [of z] sepx [of z] sep [of z n] sep [of z p] di by auto
  qed
  have d1: "dlseg m' 0 xs n"
  proof (rule dlseg_redirect [OF dx(1)])
    show "GET_PREVP m' z = GET_PREVP ?m z" if "z \<in> set xs" "z \<noteq> hd_or xs 0" for z
      using inxs [OF that(1)] by (intro cellP) auto
    show "GET_NEXTP m' z = GET_NEXTP ?m z" if "z \<in> set xs" "z \<noteq> last_or xs 0" for z
      using inxs [OF that(1)] that(2) by (intro cellN) (auto simp: p_def)
    show "unat (GET_PREVP m' (hd_or xs 0)) = 0" if "xs \<noteq> []"
    proof -
      have "GET_PREVP m' (hd_or xs 0) = GET_PREVP ?m (hd_or xs 0)"
        using inxs [OF hd_or_in [OF that, of 0]] by (intro cellP) auto
      then show ?thesis using dlseg_hd_prev [OF dx(1) that] by simp
    qed
    show "unat (GET_NEXTP m' (last_or xs 0)) = n" if "xs \<noteq> []"
      using that p [OF that] n pn xr n0
      by (auto simp: m'_def link_defs mem_simps unat_of_nat64 p_def [symmetric])
    show "distinct xs" using di by simp
  qed
  have d2: "dlseg m' p ys 0"
  proof (rule dlseg_redirect [OF dx(4)])
    show "GET_PREVP m' z = GET_PREVP ?m z" if "z \<in> set ys" "z \<noteq> hd_or ys 0" for z
      using inys [OF that(1)] that(2) by (intro cellP) (auto simp: n_def)
    show "GET_NEXTP m' z = GET_NEXTP ?m z" if "z \<in> set ys" "z \<noteq> last_or ys 0" for z
      using inys [OF that(1)] by (intro cellN) auto
    show "unat (GET_NEXTP m' (last_or ys 0)) = 0" if "ys \<noteq> []"
    proof -
      have "GET_NEXTP m' (last_or ys 0) = GET_NEXTP ?m (last_or ys 0)"
        using inys [OF last_or_in [OF that, of 0]] by (intro cellN) auto
      then show ?thesis using dlseg_last_next [OF dx(4) that] by simp
    qed
    show "unat (GET_PREVP m' (hd_or ys 0)) = p" if "ys \<noteq> []"
      using that n [OF that] p pn xr p0
      by (auto simp: m'_def link_defs mem_simps unat_of_nat64 n_def [symmetric])
    show "distinct ys" using di by simp
  qed
  have d: "dlseg m' 0 (xs @ ys) 0"
    using d1 d2 by (simp add: dlseg_append n_def p_def)
  have lp: "xs \<noteq> [] \<Longrightarrow> last xs = p" by (simp add: p_def last_or_eq_last)
  have hn: "ys \<noteq> [] \<Longrightarrow> hd ys = n" by (cases ys) (simp_all add: n_def)
  show ?thesis
    using rem d rt lx fr lp hn by (intro exI [of _ m']) auto
qed

section \<open>The tiling of the heap\<close>

lemma struct_okD:
  assumes "struct_ok s B" and "b \<in> B"
  shows "seg_free_listp s + 96 \<le> b" and "8 dvd b" and "24 \<le> bsize (mem s) b"
    and "b + bsize (mem s) b \<le> mem_brk s"
    and "b + bsize (mem s) b = mem_brk s \<or> b + bsize (mem s) b \<in> B"
    and "bprev (mem s) (b + bsize (mem s) b) \<longleftrightarrow> balloc (mem s) b"
    and "b = seg_free_listp s + 96 \<or> (\<exists>p\<in>B. p + bsize (mem s) p = b)"
    and "balloc (mem s) b \<or> GET_SIZE (mem s) (FTRP (mem s) b) = GET_SIZE (mem s) (HDRP b)"
  using assms unfolding struct_ok_def by blast+

lemma struct_ok_globals:
  assumes "struct_ok s B"
  shows "0 < seg_free_listp s" and "8 dvd seg_free_listp s"
    and "heap_listp s = seg_free_listp s + 88"
    and "seg_free_listp s + 96 \<le> mem_brk s" and "8 dvd mem_brk s"
    and "mem_brk s \<le> mem_max_addr s"
    and "mem_max_addr s < seg_free_listp s + 2 ^ 32" and "mem_max_addr s < 2 ^ 64 - 1"
    and "GET (mem s) (seg_free_listp s + 84) = 9" and "GET (mem s) (seg_free_listp s + 88) = 9"
    and "bsize (mem s) (mem_brk s) = 0" and "balloc (mem s) (mem_brk s)"
    and "bprev (mem s) (seg_free_listp s + 96)"
    and "seg_free_listp s + 96 = mem_brk s \<or> seg_free_listp s + 96 \<in> B"
  using assms unfolding struct_ok_def by blast+

lemma struct_ok_disj:
  assumes "struct_ok s B" and "b \<in> B" and "b' \<in> B" and "b \<noteq> b'"
  shows "b + bsize (mem s) b \<le> b' \<or> b' + bsize (mem s) b' \<le> b"
proof -
  have "\<forall>b\<in>B. \<forall>b'\<in>B. b < b' \<longrightarrow> b + bsize (mem s) b \<le> b'"
    using assms(1) unfolding struct_ok_def by blast
  then show ?thesis using assms(2-4) by (metis linorder_neqE_nat)
qed

lemma struct_ok_bounds:
  assumes "struct_ok s B" and "b \<in> B"
  shows "b < 2 ^ 64" and "0 < b" and "bsize (mem s) b < 2 ^ 32" and "b + bsize (mem s) b < 2 ^ 64"
  using struct_okD [OF assms] struct_ok_globals [OF assms(1)] by auto

lemma hdr_not_linkarea:
  assumes st: "struct_ok s B" and c: "c \<in> B \<or> c = mem_brk s" and a: "c - 4 \<le> a" "a < c"
  shows "a \<notin> linkarea s B"
proof -
  have c96: "seg_free_listp s + 96 \<le> c"
    using c struct_okD(1) [OF st, of c] struct_ok_globals(4) [OF st] by auto
  have "\<not> (b \<le> a \<and> a < b + 16)" if "b \<in> B" for b
  proof (cases "b = c")
    case True
    then show ?thesis using a by simp
  next
    case False
    have "b + bsize (mem s) b \<le> c \<or> c \<le> b"
    proof (cases "c \<in> B")
      case True
      then show ?thesis using struct_ok_disj [OF st that True False] by auto
    next
      case False
      then show ?thesis using c struct_okD(4) [OF st that] by auto
    qed
    then show ?thesis using struct_okD(3) [OF st that] a by auto
  qed
  then show ?thesis using c96 a by (auto simp: linkarea_def)
qed

lemma ftr_not_linkarea:
  assumes st: "struct_ok s B" and c: "c \<in> B"
    and a: "c + bsize (mem s) c - 8 \<le> a" "a < c + bsize (mem s) c - 4"
  shows "a \<notin> linkarea s B"
proof -
  note cc = struct_okD [OF st c]
  have "\<not> (b \<le> a \<and> a < b + 16)" if "b \<in> B" for b
  proof (cases "b = c")
    case True
    then show ?thesis using a cc(3) by arith
  next
    case False
    then show ?thesis
      using struct_ok_disj [OF st that c False] struct_okD(3) [OF st that] a cc(3) by auto
  qed
  then show ?thesis using cc(1,3) a by (auto simp: linkarea_def)
qed

lemma pay_not_linkarea:
  assumes st: "struct_ok s B" and c: "c \<in> B" "balloc (mem s) c"
    and a: "c \<le> a" "a < c + bsize (mem s) c - 4"
  shows "a \<notin> linkarea s B"
proof -
  note cc = struct_okD [OF st c(1)]
  have "\<not> (b \<le> a \<and> a < b + 16)" if "b \<in> B" "\<not> balloc (mem s) b" for b
  proof -
    have "b \<noteq> c" using that c by auto
    then show ?thesis
      using struct_ok_disj [OF st that(1) c(1)] struct_okD(3) [OF st that(1)] a cc(3) by auto
  qed
  then show ?thesis using cc(1) a by (auto simp: linkarea_def)
qed

lemma prologue_not_linkarea:
  assumes st: "struct_ok s B" and a: "seg_free_listp s + 80 \<le> a" "a < seg_free_listp s + 92"
  shows "a \<notin> linkarea s B"
proof -
  have "\<not> (b \<le> a \<and> a < b + 16)" if "b \<in> B" for b
    using struct_okD(1) [OF st that] a by auto
  then show ?thesis using a by (auto simp: linkarea_def)
qed

text \<open>A write that stays inside the link area changes no header and no footer.\<close>

lemma links_frame:
  assumes st: "struct_ok s B"
    and fr: "\<And>a. a \<notin> linkarea s B \<Longrightarrow> m' a = mem s a"
  shows "\<And>c. c \<in> B \<or> c = mem_brk s \<Longrightarrow> GET m' (HDRP c) = GET (mem s) (HDRP c)"
    and "\<And>c. c \<in> B \<Longrightarrow> GET m' (FTRP (mem s) c) = GET (mem s) (FTRP (mem s) c)"
    and "GET m' (seg_free_listp s + 84) = GET (mem s) (seg_free_listp s + 84)"
    and "GET m' (seg_free_listp s + 88) = GET (mem s) (seg_free_listp s + 88)"
proof -
  show "GET m' (HDRP c) = GET (mem s) (HDRP c)" if "c \<in> B \<or> c = mem_brk s" for c
  proof (rule GET_cong, rule fr, rule hdr_not_linkarea [OF st that])
    fix a assume "HDRP c \<le> a" "a < HDRP c + 4"
    moreover have "4 \<le> c" using that struct_okD(1) [OF st, of c] struct_ok_globals(4) [OF st] by auto
    ultimately show "c - 4 \<le> a" "a < c" by (auto simp: HDRP_def)
  qed
  show "GET m' (FTRP (mem s) c) = GET (mem s) (FTRP (mem s) c)" if "c \<in> B" for c
  proof (rule GET_cong, rule fr, rule ftr_not_linkarea [OF st that])
    fix a assume "FTRP (mem s) c \<le> a" "a < FTRP (mem s) c + 4"
    then show "c + bsize (mem s) c - 8 \<le> a" "a < c + bsize (mem s) c - 4"
      using struct_okD(3) [OF st that] by (auto simp: FTRP_def bsize_def)
  qed
  show "GET m' (seg_free_listp s + 84) = GET (mem s) (seg_free_listp s + 84)"
    by (rule GET_cong, rule fr, rule prologue_not_linkarea [OF st]) auto
  show "GET m' (seg_free_listp s + 88) = GET (mem s) (seg_free_listp s + 88)"
    by (rule GET_cong, rule fr, rule prologue_not_linkarea [OF st]) auto
qed

lemma acc_eq:
  assumes "GET m' (HDRP c) = GET m (HDRP c)"
  shows "bsize m' c = bsize m c" and "balloc m' c = balloc m c" and "bprev m' c = bprev m c"
    and "FTRP m' c = FTRP m c"
  using assms by (simp_all add: bsize_def balloc_def bprev_def FTRP_def GET_SIZE_def GET_ALLOC_def
      GET_PREV_ALLOC_def)

text \<open>The tiling only depends on the header words, the footer words and the prologue.\<close>

lemma struct_ok_cong:
  assumes st: "struct_ok s B"
    and hd: "\<And>c. c \<in> B \<or> c = mem_brk s \<Longrightarrow> GET m' (HDRP c) = GET (mem s) (HDRP c)"
    and ft: "\<And>c. c \<in> B \<Longrightarrow> GET m' (FTRP (mem s) c) = GET (mem s) (FTRP (mem s) c)"
    and pr: "GET m' (seg_free_listp s + 84) = GET (mem s) (seg_free_listp s + 84)"
      "GET m' (seg_free_listp s + 88) = GET (mem s) (seg_free_listp s + 88)"
  shows "struct_ok (s\<lparr>mem := m'\<rparr>) B"
proof -
  let ?m = "mem s"
  have eq: "bsize m' c = bsize ?m c \<and> balloc m' c = balloc ?m c \<and> bprev m' c = bprev ?m c
      \<and> FTRP m' c = FTRP ?m c" if "c \<in> B \<or> c = mem_brk s" for c
    using acc_eq [OF hd [OF that]] by simp
  have nx: "b + bsize ?m b \<in> B \<or> b + bsize ?m b = mem_brk s" if "b \<in> B" for b
    using struct_okD(5) [OF st that] by auto
  have fst: "seg_free_listp s + 96 \<in> B \<or> seg_free_listp s + 96 = mem_brk s"
    using struct_ok_globals(14) [OF st] by auto
  have fs: "GET_SIZE m' (FTRP m' c) = GET_SIZE ?m (FTRP ?m c)" if "c \<in> B" for c
    using eq [of c] ft [OF that] that by (simp add: GET_SIZE_def)
  have hs: "GET_SIZE m' (HDRP c) = GET_SIZE ?m (HDRP c)" if "c \<in> B" for c
    using hd [of c] that by (simp add: GET_SIZE_def)
  have b1: "bprev m' (b + bsize ?m b) = bprev ?m (b + bsize ?m b)" if "b \<in> B" for b
    using eq [OF nx [OF that]] by simp
  show ?thesis
    unfolding struct_ok_def
  proof (intro conjI ballI)
    fix b assume b: "b \<in> B"
    note d = struct_okD [OF st b]
    note e = eq [of b] b
    show "seg_free_listp (s\<lparr>mem := m'\<rparr>) + 96 \<le> b" using d by simp
    show "8 dvd b" using d by simp
    show "24 \<le> bsize (mem (s\<lparr>mem := m'\<rparr>)) b" using d e by simp
    show "b + bsize (mem (s\<lparr>mem := m'\<rparr>)) b \<le> mem_brk (s\<lparr>mem := m'\<rparr>)" using d e by simp
    show "b + bsize (mem (s\<lparr>mem := m'\<rparr>)) b = mem_brk (s\<lparr>mem := m'\<rparr>)
        \<or> b + bsize (mem (s\<lparr>mem := m'\<rparr>)) b \<in> B" using d e by simp
    show "bprev (mem (s\<lparr>mem := m'\<rparr>)) (b + bsize (mem (s\<lparr>mem := m'\<rparr>)) b)
        = balloc (mem (s\<lparr>mem := m'\<rparr>)) b" using d e b1 [OF b] by simp
    show "b = seg_free_listp (s\<lparr>mem := m'\<rparr>) + 96
        \<or> (\<exists>p\<in>B. p + bsize (mem (s\<lparr>mem := m'\<rparr>)) p = b)"
      using d(7) eq by auto
    show "balloc (mem (s\<lparr>mem := m'\<rparr>)) b
        \<or> GET_SIZE (mem (s\<lparr>mem := m'\<rparr>)) (FTRP (mem (s\<lparr>mem := m'\<rparr>)) b)
          = GET_SIZE (mem (s\<lparr>mem := m'\<rparr>)) (HDRP b)"
      using d(8) e fs [OF b] hs [OF b] by simp
    fix b' assume b': "b' \<in> B"
    show "b < b' \<longrightarrow> b + bsize (mem (s\<lparr>mem := m'\<rparr>)) b \<le> b'"
      using struct_ok_disj [OF st b b'] struct_okD(3) [OF st b'] e by auto
  qed (use struct_ok_globals [OF st] eq [of "mem_brk s"] eq [OF fst] pr in simp_all)
qed

lemma coalesced_cong:
  assumes co: "coalesced s B X"
    and hd: "\<And>c. c \<in> B \<Longrightarrow> GET m' (HDRP c) = GET (mem s) (HDRP c)"
    and ft: "\<And>c. c \<in> B \<Longrightarrow> GET m' (FTRP (mem s) c) = GET (mem s) (FTRP (mem s) c)"
  shows "coalesced (s\<lparr>mem := m'\<rparr>) B X"
  unfolding coalesced_def
proof (intro ballI)
  fix b assume b: "b \<in> B"
  note e = acc_eq [OF hd [OF b]]
  show "b \<in> X \<or> balloc (mem (s\<lparr>mem := m'\<rparr>)) b
      \<or> bprev (mem (s\<lparr>mem := m'\<rparr>)) b
        \<and> GET (mem (s\<lparr>mem := m'\<rparr>)) (FTRP (mem (s\<lparr>mem := m'\<rparr>)) b)
          = GET (mem (s\<lparr>mem := m'\<rparr>)) (HDRP b)"
    using co b e hd [OF b] ft [OF b] unfolding coalesced_def by auto
qed

lemma unat_ucast_32_64: "unat (ucast (a :: 32 word) :: 64 word) = unat a"
proof -
  have "unat a < 2 ^ 32" using unsigned_less [of a] by simp
  then have "unat a < 2 ^ 64" by simp
  then show ?thesis by (simp add: unsigned_ucast_eq take_bit_nat_eq_self)
qed

lemma ucast_le_64: "(ucast (a :: 32 word) :: 64 word) \<le> ucast (b :: 32 word) \<longleftrightarrow> unat a \<le> unat b"
  by (simp add: word_le_nat_alt unat_ucast_32_64)

lemma get_root_bucket:
  "get_root s (ucast (GET_SIZE m a)) = seg_free_listp s + 8 * bucket (unat (GET_SIZE m a))"
  unfolding get_root_def bucket_def Let_def word_le_nat_alt unat_ucast_32_64 by simp

lemma bucket_less: "bucket n < 10"
  by (simp add: bucket_def)

lemma lists_okD:
  assumes "lists_ok s B L U" and "i < 10"
  shows "dlseg (mem s) 0 (L i) 0"
    and "unat (GET_8B (mem s) (seg_free_listp s + 8 * i)) = hd_or (L i) 0"
    and "distinct (L i)"
    and "sorted_wrt (\<lambda>x y. bsize (mem s) x \<le> bsize (mem s) y) (L i)"
    and "\<And>x. x \<in> set (L i) \<Longrightarrow> x \<in> B \<and> \<not> balloc (mem s) x \<and> x \<notin> U \<and> bucket (bsize (mem s) x) = i"
  using assms unfolding lists_ok_def by blast+

lemma lists_ok_listed:
  assumes "lists_ok s B L U" and "b \<in> B" and "\<not> balloc (mem s) b" and "b \<notin> U"
  shows "b \<in> set (L (bucket (bsize (mem s) b)))"
  using assms unfolding lists_ok_def by blast

lemma free_sep:
  assumes st: "struct_ok s B" and "y \<in> B" "z \<in> B" "y \<noteq> z"
  shows "y + 24 \<le> z \<or> z + 24 \<le> y"
  using struct_ok_disj [OF assms] struct_okD(3) [OF st assms(2)] struct_okD(3) [OF st assms(3)]
  by auto

lemma sorted_wrt_remove:
  "sorted_wrt P (xs @ x # ys) \<Longrightarrow> sorted_wrt P (xs @ ys)"
  by (auto simp: sorted_wrt_append)

lemma sorted_wrt_bsize_cong:
  assumes "sorted_wrt (\<lambda>x y. bsize m x \<le> bsize m y) xs"
    and "\<And>x. x \<in> set xs \<Longrightarrow> bsize m' x = bsize m x"
  shows "sorted_wrt (\<lambda>x y. bsize m' x \<le> bsize m' y) xs"
  using assms by (induction xs) auto

lemma notin_linkarea_block:
  "a \<notin> linkarea s B \<Longrightarrow> b \<in> B \<Longrightarrow> \<not> balloc (mem s) b \<Longrightarrow> a < b \<or> b + 16 \<le> a"
  by (fastforce simp: linkarea_def)

lemma notin_linkarea_root:
  "a \<notin> linkarea s B \<Longrightarrow> a < seg_free_listp s \<or> seg_free_listp s + 80 \<le> a"
  by (fastforce simp: linkarea_def)

lemma remove_ok:
  assumes st: "struct_ok s B" and li: "lists_ok s B L U" and i: "i < 10"
    and Li: "L i = xs @ x # ys"
  shows "\<exists>m'. remove_from_free_list s x = s\<lparr>mem := m'\<rparr>
      \<and> (\<forall>a. a \<notin> linkarea s B \<longrightarrow> m' a = mem s a)
      \<and> lists_ok (s\<lparr>mem := m'\<rparr>) B (L(i := xs @ ys)) (insert x U)
      \<and> GET_PREVP m' x = 0 \<and> GET_NEXTP m' x = 0"
proof -
  let ?m = "mem s"
  let ?seg = "seg_free_listp s"
  let ?r = "?seg + 8 * i"
  note l = lists_okD [OF li i]
  have mem: "y \<in> B \<and> \<not> balloc ?m y \<and> y \<notin> U \<and> bucket (bsize ?m y) = i" if "y \<in> set (L i)" for y
    using l(5) [OF that] .
  have xin: "x \<in> set (L i)" using Li by simp
  note xm = mem [OF xin]
  have r: "get_root s (ucast (GET_SIZE ?m (HDRP x))) = ?r"
    using xm by (simp add: get_root_bucket bsize_def)
  have nz: "0 < y \<and> y < 2 ^ 64 \<and> ?r + 8 \<le> y" if "y \<in> set (xs @ x # ys)" for y
    using mem [of y] that Li struct_okD(1) [OF st, of y] struct_ok_bounds(1) [OF st, of y] i
    by auto
  have sep: "y + 16 \<le> z \<or> z + 16 \<le> y"
    if "y \<in> set (xs @ x # ys)" "z \<in> set (xs @ x # ys)" "y \<noteq> z" for y z
    using free_sep [OF st, of y z] mem [of y] mem [of z] that Li by auto
  have di: "distinct (xs @ x # ys)" using l(3) Li by simp
  have "\<exists>m'. remove_from_free_list s x = s\<lparr>mem := m'\<rparr>
      \<and> dlseg m' 0 (xs @ ys) 0
      \<and> (xs = [] \<longrightarrow> unat (GET_8B m' ?r) = hd_or ys 0)
      \<and> GET_PREVP m' x = 0 \<and> GET_NEXTP m' x = 0
      \<and> (\<forall>a. (a < x \<or> x + 16 \<le> a) \<and> (xs = [] \<longrightarrow> a < ?r \<or> ?r + 8 \<le> a)
             \<and> (xs \<noteq> [] \<longrightarrow> a < last xs + 8 \<or> last xs + 16 \<le> a)
             \<and> (ys \<noteq> [] \<longrightarrow> a < hd ys \<or> hd ys + 8 \<le> a) \<longrightarrow> m' a = mem s a)"
  proof (rule remove_mem [OF _ _ r _ nz sep di])
    show "x \<noteq> 0" using nz [of x] by simp
    show "\<not> balloc ?m x" using xm by simp
    show "dlseg ?m 0 (xs @ x # ys) 0" using l(1) Li by simp
  qed
  then obtain m' where m': "remove_from_free_list s x = s\<lparr>mem := m'\<rparr>"
    "dlseg m' 0 (xs @ ys) 0" "xs = [] \<longrightarrow> unat (GET_8B m' ?r) = hd_or ys 0"
    "GET_PREVP m' x = 0" "GET_NEXTP m' x = 0"
    and fr0': "\<forall>a. (a < x \<or> x + 16 \<le> a) \<and> (xs = [] \<longrightarrow> a < ?r \<or> ?r + 8 \<le> a)
             \<and> (xs \<noteq> [] \<longrightarrow> a < last xs + 8 \<or> last xs + 16 \<le> a)
             \<and> (ys \<noteq> [] \<longrightarrow> a < hd ys \<or> hd ys + 8 \<le> a) \<longrightarrow> m' a = mem s a"
    by blast
  have fr0: "m' a = ?m a" if "a < x \<or> x + 16 \<le> a" "xs = [] \<longrightarrow> a < ?r \<or> ?r + 8 \<le> a"
    "xs \<noteq> [] \<longrightarrow> a < last xs + 8 \<or> last xs + 16 \<le> a"
    "ys \<noteq> [] \<longrightarrow> a < hd ys \<or> hd ys + 8 \<le> a" for a
    using fr0' [rule_format, of a] that by blast
  have pin: "last xs \<in> set (L i)" if "xs \<noteq> []" using that Li by simp
  have nin: "hd ys \<in> set (L i)" if "ys \<noteq> []" using that Li by simp
  have fr: "m' a = ?m a" if "a \<notin> linkarea s B" for a
  proof (rule fr0)
    show "a < x \<or> x + 16 \<le> a" using notin_linkarea_block [OF that, of x] xm by auto
    show "xs = [] \<longrightarrow> a < ?r \<or> ?r + 8 \<le> a" using notin_linkarea_root [OF that] i by auto
    show "xs \<noteq> [] \<longrightarrow> a < last xs + 8 \<or> last xs + 16 \<le> a"
      using notin_linkarea_block [OF that, of "last xs"] mem [OF pin] by auto
    show "ys \<noteq> [] \<longrightarrow> a < hd ys \<or> hd ys + 8 \<le> a"
      using notin_linkarea_block [OF that, of "hd ys"] mem [OF nin] by auto
  qed
  note lf = links_frame [OF st fr]
  have acc: "bsize m' c = bsize ?m c \<and> balloc m' c = balloc ?m c" if "c \<in> B" for c
    using acc_eq [OF lf(1) [of c]] that by simp
  text \<open>cells outside the list \<open>i\<close>\<close>
  have other: "GET_8B m' c = GET_8B ?m c"
    if "\<And>z. z \<in> set (L i) \<Longrightarrow> c + 8 \<le> z \<or> z + 16 \<le> c" "c + 8 \<le> ?r \<or> ?r + 8 \<le> c" for c
  proof (rule GET_8B_cong, rule fr0)
    fix a assume a: "c \<le> a" "a < c + 8"
    show "a < x \<or> x + 16 \<le> a" using that(1) [OF xin] a by auto
    show "xs = [] \<longrightarrow> a < ?r \<or> ?r + 8 \<le> a" using that(2) a by auto
    show "xs \<noteq> [] \<longrightarrow> a < last xs + 8 \<or> last xs + 16 \<le> a" using that(1) [OF pin] a by auto
    show "ys \<noteq> [] \<longrightarrow> a < hd ys \<or> hd ys + 8 \<le> a" using that(1) [OF nin] a by auto
  qed
  have root_i: "unat (GET_8B m' ?r) = hd_or (xs @ ys) 0"
  proof (cases "xs = []")
    case True
    then show ?thesis using m'(3) by simp
  next
    case False
    have "GET_8B m' ?r = GET_8B ?m ?r"
    proof (rule GET_8B_cong, rule fr0)
      fix a assume a: "?r \<le> a" "a < ?r + 8"
      show "a < x \<or> x + 16 \<le> a" using nz [of x] a by auto
      show "xs = [] \<longrightarrow> a < ?r \<or> ?r + 8 \<le> a" using False by simp
      show "xs \<noteq> [] \<longrightarrow> a < last xs + 8 \<or> last xs + 16 \<le> a" using nz [of "last xs"] a by auto
      show "ys \<noteq> [] \<longrightarrow> a < hd ys \<or> hd ys + 8 \<le> a" using nz [of "hd ys"] a by auto
    qed
    then show ?thesis using l(2) Li False by (simp add: hd_or_append) (cases xs; simp)
  qed
  have lists: "lists_ok (s\<lparr>mem := m'\<rparr>) B (L(i := xs @ ys)) (insert x U)"
    unfolding lists_ok_def
  proof (intro conjI allI impI ballI)
    fix j :: nat assume j: "j < 10"
    note lj = lists_okD [OF li j]
    have memj: "y \<in> B \<and> \<not> balloc ?m y \<and> y \<notin> U \<and> bucket (bsize ?m y) = j" if "y \<in> set (L j)" for y
      using lj(5) [OF that] .
    have cellj: "GET_PREVP m' y = GET_PREVP ?m y \<and> GET_NEXTP m' y = GET_NEXTP ?m y"
      if "y \<in> set (L j)" "j \<noteq> i" for y
    proof -
      have ne: "y \<noteq> z" if "z \<in> set (L i)" for z using memj [OF \<open>y \<in> set (L j)\<close>] mem [OF that] \<open>j \<noteq> i\<close> by auto
      have s1: "y + 24 \<le> z \<or> z + 24 \<le> y" if "z \<in> set (L i)" for z
        using free_sep [OF st _ _ ne [OF that]] memj [OF \<open>y \<in> set (L j)\<close>] mem [OF that] by auto
      have yb: "?seg + 96 \<le> y" using struct_okD(1) [OF st, of y] memj [OF that(1)] by simp
      have "GET_8B m' y = GET_8B ?m y"
      proof (rule other)
        fix z assume "z \<in> set (L i)"
        then show "y + 8 \<le> z \<or> z + 16 \<le> y" using s1 [of z] by auto
      next
        show "y + 8 \<le> ?r \<or> ?r + 8 \<le> y" using yb i by auto
      qed
      moreover have "GET_8B m' (y + 8) = GET_8B ?m (y + 8)"
      proof (rule other)
        fix z assume "z \<in> set (L i)"
        then show "y + 8 + 8 \<le> z \<or> z + 16 \<le> y + 8" using s1 [of z] by auto
      next
        show "y + 8 + 8 \<le> ?r \<or> ?r + 8 \<le> y + 8" using yb i by auto
      qed
      ultimately show ?thesis by (simp add: link_defs)
    qed
    show "dlseg (mem (s\<lparr>mem := m'\<rparr>)) 0 ((L(i := xs @ ys)) j) 0"
    proof (cases "j = i")
      case True
      then show ?thesis using m'(2) by simp
    next
      case False
      have "dlseg m' 0 (L j) 0"
        by (rule dlseg_cong [OF lj(1)]) (use cellj False in blast)
      then show ?thesis using False by simp
    qed
    show "unat (GET_8B (mem (s\<lparr>mem := m'\<rparr>)) (seg_free_listp (s\<lparr>mem := m'\<rparr>) + 8 * j))
        = hd_or ((L(i := xs @ ys)) j) 0"
    proof (cases "j = i")
      case True
      then show ?thesis using root_i by simp
    next
      case False
      have "GET_8B m' (?seg + 8 * j) = GET_8B ?m (?seg + 8 * j)"
      proof (rule other)
        fix z assume "z \<in> set (L i)"
        then show "?seg + 8 * j + 8 \<le> z \<or> z + 16 \<le> ?seg + 8 * j"
          using struct_okD(1) [OF st, of z] mem [of z] j by auto
      next
        show "?seg + 8 * j + 8 \<le> ?r \<or> ?r + 8 \<le> ?seg + 8 * j" using False by auto
      qed
      then show ?thesis using lj(2) False by simp
    qed
    show "distinct ((L(i := xs @ ys)) j)" using lj(3) di by (cases "j = i") auto
    show "sorted_wrt (\<lambda>x y. bsize (mem (s\<lparr>mem := m'\<rparr>)) x \<le> bsize (mem (s\<lparr>mem := m'\<rparr>)) y) ((L(i := xs @ ys)) j)"
    proof (cases "j = i")
      case True
      have "sorted_wrt (\<lambda>x y. bsize ?m x \<le> bsize ?m y) (xs @ ys)"
        using l(4) Li sorted_wrt_remove by metis
      moreover have "bsize m' z = bsize ?m z" if "z \<in> set (xs @ ys)" for z
        using acc [of z] mem [of z] that Li by auto
      ultimately have "sorted_wrt (\<lambda>x y. bsize m' x \<le> bsize m' y) (xs @ ys)"
        by (rule sorted_wrt_bsize_cong)
      then show ?thesis using True by simp
    next
      case False
      have "bsize m' z = bsize ?m z" if "z \<in> set (L j)" for z
        using acc [of z] memj [of z] that by auto
      with lj(4) have "sorted_wrt (\<lambda>x y. bsize m' x \<le> bsize m' y) (L j)"
        by (rule sorted_wrt_bsize_cong)
      then show ?thesis using False by simp
    qed
    fix y assume y: "y \<in> set ((L(i := xs @ ys)) j)"
    have yj: "y \<in> set (L j) \<and> y \<noteq> x"
    proof (cases "j = i")
      case True
      then show ?thesis using y di Li by auto
    next
      case False
      then have "x \<notin> set (L j)" using memj [of x] xm by auto
      then show ?thesis using y False by auto
    qed
    show "y \<in> B" using memj [of y] yj by simp
    show "\<not> balloc (mem (s\<lparr>mem := m'\<rparr>)) y" using memj [of y] yj acc [of y] by simp
    show "y \<notin> insert x U" using memj [of y] yj by simp
    show "bucket (bsize (mem (s\<lparr>mem := m'\<rparr>)) y) = j" using memj [of y] yj acc [of y] by simp
  next
    fix b assume b: "b \<in> B"
    show "balloc (mem (s\<lparr>mem := m'\<rparr>)) b \<or> b \<in> insert x U
        \<or> b \<in> set ((L(i := xs @ ys)) (bucket (bsize (mem (s\<lparr>mem := m'\<rparr>)) b)))"
      using lists_ok_listed [OF li b] acc [OF b] Li by auto
  qed
  show ?thesis using m'(1,4,5) fr lists by blast
qed

lemma insert_scan_list:
  assumes "dlseg m p zs 0" and "\<And>z. z \<in> set zs \<Longrightarrow> z \<noteq> 0"
  shows "\<exists>xs ys. zs = xs @ ys
      \<and> insert_scan m sz prev (hd_or zs 0) = Some (last_or xs prev, hd_or ys 0)
      \<and> (\<forall>x\<in>set xs. bsize m x < unat sz)
      \<and> (ys \<noteq> [] \<longrightarrow> unat sz \<le> bsize m (hd ys))"
  using assms
proof (induction zs arbitrary: p prev)
  case Nil
  have "insert_scan m sz prev 0 = Some (prev, 0)" by (subst insert_scan.simps) simp
  then show ?case by simp
next
  case (Cons z zs)
  have z: "z \<noteq> 0" using Cons.prems(2) by simp
  show ?case
  proof (cases "unat sz \<le> bsize m z")
    case True
    then have "insert_scan m sz prev z = Some (prev, z)"
      using z by (subst insert_scan.simps) (simp add: bsize_def word_le_nat_alt unat_ucast_32_64)
    then show ?thesis using True by (intro exI [of _ "[]"] exI [of _ "z # zs"]) simp
  next
    case False
    have nx: "unat (GET_NEXTP m z) = hd_or zs 0" and dl: "dlseg m z zs 0"
      using Cons.prems(1) by simp_all
    from Cons.IH [OF dl, of z] Cons.prems(2)
    obtain xs ys where r: "zs = xs @ ys"
      "insert_scan m sz z (hd_or zs 0) = Some (last_or xs z, hd_or ys 0)"
      "\<forall>x\<in>set xs. bsize m x < unat sz" "ys \<noteq> [] \<longrightarrow> unat sz \<le> bsize m (hd ys)"
      by auto
    have "insert_scan m sz prev z = Some (last_or xs z, hd_or ys 0)"
      using z False nx r(2)
      by (subst insert_scan.simps) (simp add: bsize_def word_le_nat_alt unat_ucast_32_64)
    then show ?thesis using r False
      by (intro exI [of _ "z # xs"] exI [of _ ys]) simp
  qed
qed

lemma insert_to_free_list_eq:
  assumes "bp \<noteq> 0"
    and "insert_scan (mem s) (ucast (GET_SIZE (mem s) (HDRP bp)))
           (get_root s (ucast (GET_SIZE (mem s) (HDRP bp))))
           (unat (GET_8B (mem s) (get_root s (ucast (GET_SIZE (mem s) (HDRP bp)))))) = Some (prev, next)"
  shows "insert_to_free_list s bp
    = Some (s\<lparr>mem := insert_mem (mem s) (get_root s (ucast (GET_SIZE (mem s) (HDRP bp)))) bp prev next\<rparr>)"
  using assms by (simp add: insert_to_free_list_def insert_mem_def Let_def)

lemma insert_mem_dll:
  assumes dl: "dlseg m 0 (xs @ ys) 0"
    and b: "0 < b" "b < 2 ^ 64" "r + 8 \<le> b" "b \<notin> set (xs @ ys)"
    and nz: "\<And>y. y \<in> set (xs @ ys) \<Longrightarrow> 0 < y \<and> y < 2 ^ 64 \<and> r + 8 \<le> y"
    and sep: "\<And>y z. y \<in> set (b # xs @ ys) \<Longrightarrow> z \<in> set (b # xs @ ys) \<Longrightarrow> y \<noteq> z
                \<Longrightarrow> y + 16 \<le> z \<or> z + 16 \<le> y"
    and di: "distinct (xs @ ys)"
    and root: "unat (GET_8B m r) = hd_or (xs @ ys) 0"
    and m': "m' = insert_mem m r b (last_or xs r) (hd_or ys 0)"
  shows "dlseg m' 0 (xs @ b # ys) 0"
    and "unat (GET_8B m' r) = hd_or (xs @ b # ys) 0"
    and "\<And>a. (a < b \<or> b + 16 \<le> a) \<Longrightarrow> (xs = [] \<longrightarrow> a < r \<or> r + 8 \<le> a)
             \<Longrightarrow> (xs \<noteq> [] \<longrightarrow> a < last xs + 8 \<or> last xs + 16 \<le> a)
             \<Longrightarrow> (ys \<noteq> [] \<longrightarrow> a < hd ys \<or> hd ys + 8 \<le> a) \<Longrightarrow> m' a = m a"
proof -
  have dx: "dlseg m 0 xs (hd_or ys 0)" "dlseg m (last_or xs 0) ys 0"
    using dl by (simp_all add: dlseg_append)
  have sepb: "z + 16 \<le> b \<or> b + 16 \<le> z" if "z \<in> set xs \<or> z \<in> set ys" for z
    using that sep [of z b] b(4) by auto
  define p where "p = last_or xs 0"
  define n where "n = hd_or ys 0"
  have p: "0 < p \<and> p < 2 ^ 64 \<and> r + 8 \<le> p \<and> (p + 16 \<le> b \<or> b + 16 \<le> p) \<and> p \<in> set xs"
    if "xs \<noteq> []"
    using that last_or_in [OF that, of 0] nz [of p] sepb [of p] by (auto simp: p_def)
  have n: "0 < n \<and> n < 2 ^ 64 \<and> r + 8 \<le> n \<and> (n + 16 \<le> b \<or> b + 16 \<le> n) \<and> n \<in> set ys"
    if "ys \<noteq> []"
    using that hd_or_in [OF that, of 0] nz [of n] sepb [of n] by (auto simp: n_def)
  have pn: "p + 16 \<le> n \<or> n + 16 \<le> p" if "xs \<noteq> []" "ys \<noteq> []"
    using p n that sep [of p n] di by auto
  have lp: "last_or xs r = (if xs = [] then r else p)"
    by (cases xs) (simp_all add: p_def last_or_eq_last)
  have pr: "p \<noteq> r" if "xs \<noteq> []" using p [OF that] by auto
  have n0: "n = 0 \<longleftrightarrow> ys = []" by (cases "ys = []") (use n in \<open>auto simp: n_def\<close>)
  have md: "m' =
    (if xs = [] \<and> ys = [] then SET_NEXTP (SET_PREVP (PUT_8B m r (of_nat b)) b 0) b 0
     else if xs \<noteq> [] \<and> ys = [] then
       SET_NEXTP (SET_NEXTP (SET_PREVP m b (of_nat p)) b 0) p (of_nat b)
     else if xs = [] \<and> ys \<noteq> [] then
       SET_PREVP (SET_NEXTP (SET_PREVP (PUT_8B m r (of_nat b)) b 0) b (of_nat n)) n (of_nat b)
     else SET_PREVP (SET_NEXTP (SET_NEXTP (SET_PREVP m b (of_nat p)) b (of_nat n)) p (of_nat b))
            n (of_nat b))"
    using pr n0 by (auto simp: m' insert_mem_def lp n_def [symmetric])
  have lb: "unat (GET_PREVP m' b) = p" "unat (GET_NEXTP m' b) = n"
    using b p n pn n0 by (auto simp: md link_defs mem_simps unat_of_nat64 p_def)
  show fr: "m' a = m a" if "a < b \<or> b + 16 \<le> a" "xs = [] \<longrightarrow> a < r \<or> r + 8 \<le> a"
    "xs \<noteq> [] \<longrightarrow> a < last xs + 8 \<or> last xs + 16 \<le> a" "ys \<noteq> [] \<longrightarrow> a < hd ys \<or> hd ys + 8 \<le> a" for a
  proof -
    have "xs \<noteq> [] \<longrightarrow> a < p + 8 \<or> p + 16 \<le> a" using that(3) by (simp add: p_def last_or_eq_last)
    moreover have "ys \<noteq> [] \<longrightarrow> a < n \<or> n + 8 \<le> a" using that(4) by (cases ys) (simp_all add: n_def)
    ultimately show ?thesis using that(1,2) by (auto simp: md link_defs mem_simps)
  qed
  have fr': "m' a = m a" if "a < b \<or> b + 16 \<le> a" "xs = [] \<longrightarrow> a < r \<or> r + 8 \<le> a"
    "xs \<noteq> [] \<longrightarrow> a < p + 8 \<or> p + 16 \<le> a" "ys \<noteq> [] \<longrightarrow> a < n \<or> n + 8 \<le> a" for a
    using that by (auto simp: md link_defs mem_simps)
  have cellP: "GET_PREVP m' z = GET_PREVP m z"
    if "z + 16 \<le> b \<or> b + 16 \<le> z" "r + 8 \<le> z" "ys \<noteq> [] \<longrightarrow> z + 16 \<le> n \<or> n + 16 \<le> z"
      "xs \<noteq> [] \<longrightarrow> z = p \<or> z + 16 \<le> p \<or> p + 16 \<le> z"
    for z unfolding GET_PREVP_def
    by (rule GET_8B_cong, rule fr') (use that in auto)
  have cellN: "GET_NEXTP m' z = GET_NEXTP m z"
    if "z + 16 \<le> b \<or> b + 16 \<le> z" "r + 8 \<le> z" "xs \<noteq> [] \<longrightarrow> z + 16 \<le> p \<or> p + 16 \<le> z"
      "ys \<noteq> [] \<longrightarrow> z = n \<or> z + 16 \<le> n \<or> n + 16 \<le> z"
    for z unfolding GET_NEXTP_def
    by (rule GET_8B_cong, rule fr') (use that in auto)
  have inxs: "r + 8 \<le> z \<and> (z + 16 \<le> b \<or> b + 16 \<le> z)
      \<and> (ys \<noteq> [] \<longrightarrow> z + 16 \<le> n \<or> n + 16 \<le> z) \<and> (z \<noteq> p \<longrightarrow> z + 16 \<le> p \<or> p + 16 \<le> z)"
    if "z \<in> set xs" for z
  proof -
    have "xs \<noteq> []" using that by auto
    then have "p \<in> set xs" using p by simp
    moreover have "ys \<noteq> [] \<Longrightarrow> n \<in> set ys" using n by simp
    ultimately show ?thesis using that nz [of z] sepb [of z] sep [of z n] sep [of z p] di by auto
  qed
  have inys: "r + 8 \<le> z \<and> (z + 16 \<le> b \<or> b + 16 \<le> z)
      \<and> (xs \<noteq> [] \<longrightarrow> z + 16 \<le> p \<or> p + 16 \<le> z) \<and> (z \<noteq> n \<longrightarrow> z + 16 \<le> n \<or> n + 16 \<le> z)"
    if "z \<in> set ys" for z
  proof -
    have "ys \<noteq> []" using that by auto
    then have "n \<in> set ys" using n by simp
    moreover have "xs \<noteq> [] \<Longrightarrow> p \<in> set xs" using p by simp
    ultimately show ?thesis using that nz [of z] sepb [of z] sep [of z n] sep [of z p] di by auto
  qed
  have d1: "dlseg m' 0 xs b"
  proof (rule dlseg_redirect [OF dx(1)])
    show "GET_PREVP m' z = GET_PREVP m z" if "z \<in> set xs" "z \<noteq> hd_or xs 0" for z
      using inxs [OF that(1)] by (intro cellP) auto
    show "GET_NEXTP m' z = GET_NEXTP m z" if "z \<in> set xs" "z \<noteq> last_or xs 0" for z
      using inxs [OF that(1)] that(2) by (intro cellN) (auto simp: p_def)
    show "unat (GET_PREVP m' (hd_or xs 0)) = 0" if "xs \<noteq> []"
    proof -
      have "GET_PREVP m' (hd_or xs 0) = GET_PREVP m (hd_or xs 0)"
        using inxs [OF hd_or_in [OF that, of 0]] by (intro cellP) auto
      then show ?thesis using dlseg_hd_prev [OF dx(1) that] by simp
    qed
    show "unat (GET_NEXTP m' (last_or xs 0)) = b" if "xs \<noteq> []"
      using that p [OF that] n pn b n0
      by (auto simp: md link_defs mem_simps unat_of_nat64 p_def [symmetric])
    show "distinct xs" using di by simp
  qed
  have d2: "dlseg m' b ys 0"
  proof (rule dlseg_redirect [OF dx(2)])
    show "GET_PREVP m' z = GET_PREVP m z" if "z \<in> set ys" "z \<noteq> hd_or ys 0" for z
      using inys [OF that(1)] that(2) by (intro cellP) (auto simp: n_def)
    show "GET_NEXTP m' z = GET_NEXTP m z" if "z \<in> set ys" "z \<noteq> last_or ys 0" for z
      using inys [OF that(1)] by (intro cellN) auto
    show "unat (GET_NEXTP m' (last_or ys 0)) = 0" if "ys \<noteq> []"
    proof -
      have "GET_NEXTP m' (last_or ys 0) = GET_NEXTP m (last_or ys 0)"
        using inys [OF last_or_in [OF that, of 0]] by (intro cellN) auto
      then show ?thesis using dlseg_last_next [OF dx(2) that] by simp
    qed
    show "unat (GET_PREVP m' (hd_or ys 0)) = b" if "ys \<noteq> []"
      using that n [OF that] p pn b
      by (auto simp: md link_defs mem_simps unat_of_nat64 n_def [symmetric])
    show "distinct ys" using di by simp
  qed
  show "dlseg m' 0 (xs @ b # ys) 0"
    using d1 d2 lb by (simp add: dlseg_append n_def p_def)
  show "unat (GET_8B m' r) = hd_or (xs @ b # ys) 0"
  proof (cases "xs = []")
    case True
    then show ?thesis using b n by (auto simp: md link_defs mem_simps unat_of_nat64)
  next
    case False
    have "GET_8B m' r = GET_8B m r"
      by (rule GET_8B_cong, rule fr') (use False b p [OF False] n in auto)
    then show ?thesis using root False by (cases xs) simp_all
  qed
qed

lemma sorted_wrt_insert_mid:
  assumes "sorted_wrt P (xs @ ys)" and "\<And>x. x \<in> set xs \<Longrightarrow> P x b"
    and "\<And>y. y \<in> set ys \<Longrightarrow> P b y"
  shows "sorted_wrt P (xs @ b # ys)"
  using assms by (auto simp: sorted_wrt_append)

lemma insert_ok:
  assumes st: "struct_ok s B" and li: "lists_ok s B L U"
    and b: "b \<in> B" "\<not> balloc (mem s) b" "b \<in> U"
    and i: "i = bucket (bsize (mem s) b)"
  shows "\<exists>m' xs ys. insert_to_free_list s b = Some (s\<lparr>mem := m'\<rparr>)
      \<and> (\<forall>a. a \<notin> linkarea s B \<longrightarrow> m' a = mem s a)
      \<and> L i = xs @ ys
      \<and> lists_ok (s\<lparr>mem := m'\<rparr>) B (L(i := xs @ b # ys)) (U - {b})"
proof -
  let ?m = "mem s"
  let ?seg = "seg_free_listp s"
  let ?r = "?seg + 8 * i"
  let ?sz = "ucast (GET_SIZE ?m (HDRP b)) :: 64 word"
  have i10: "i < 10" using i bucket_less by simp
  note l = lists_okD [OF li i10]
  have mem: "y \<in> B \<and> \<not> balloc ?m y \<and> y \<notin> U \<and> bucket (bsize ?m y) = i" if "y \<in> set (L i)" for y
    using l(5) [OF that] .
  have r: "get_root s ?sz = ?r"
    using i by (simp add: get_root_bucket bsize_def)
  have usz: "unat ?sz = bsize ?m b" by (simp add: bsize_def unat_ucast_32_64)
  have bnz: "0 < b" "b < 2 ^ 64" "?r + 8 \<le> b"
    using struct_okD(1) [OF st b(1)] struct_ok_bounds(1) [OF st b(1)] i10 by auto
  have bnot: "b \<notin> set (L i)" using mem [of b] b(3) by auto
  have nzL: "z \<noteq> 0" if "z \<in> set (L i)" for z
    using struct_okD(1) [OF st, of z] mem [OF that] by auto
  from insert_scan_list [OF l(1) nzL, of ?sz ?r]
  obtain xs ys where sc: "L i = xs @ ys"
    "insert_scan ?m ?sz ?r (hd_or (L i) 0) = Some (last_or xs ?r, hd_or ys 0)"
    "\<forall>x\<in>set xs. bsize ?m x < unat ?sz" "ys \<noteq> [] \<longrightarrow> unat ?sz \<le> bsize ?m (hd ys)"
    by blast
  define m' where "m' = insert_mem ?m ?r b (last_or xs ?r) (hd_or ys 0)"
  have ins: "insert_to_free_list s b = Some (s\<lparr>mem := m'\<rparr>)"
    using insert_to_free_list_eq [of b s "last_or xs ?r" "hd_or ys 0"] bnz(1) sc(2) l(2) r
    by (simp add: m'_def)
  have nz: "0 < y \<and> y < 2 ^ 64 \<and> ?r + 8 \<le> y" if "y \<in> set (xs @ ys)" for y
    using mem [of y] that sc(1) struct_okD(1) [OF st, of y] struct_ok_bounds(1) [OF st, of y] i10
    by auto
  have sep: "y + 16 \<le> z \<or> z + 16 \<le> y"
    if "y \<in> set (b # xs @ ys)" "z \<in> set (b # xs @ ys)" "y \<noteq> z" for y z
  proof -
    have "y \<in> B" "z \<in> B" using that mem [of y] mem [of z] b(1) sc(1) by auto
    then show ?thesis using free_sep [OF st _ _ that(3)] by auto
  qed
  have di: "distinct (xs @ ys)" using l(3) sc(1) by simp
  have bn: "b \<notin> set (xs @ ys)" using bnot sc(1) by simp
  have rt: "unat (GET_8B ?m ?r) = hd_or (xs @ ys) 0" using l(2) sc(1) by simp
  have dl: "dlseg ?m 0 (xs @ ys) 0" using l(1) sc(1) by simp
  note im = insert_mem_dll [OF dl bnz bn nz sep di rt m'_def]
  have pin: "last xs \<in> set (L i)" if "xs \<noteq> []" using that sc(1) by simp
  have nin: "hd ys \<in> set (L i)" if "ys \<noteq> []" using that sc(1) by simp
  have fr: "m' a = ?m a" if "a \<notin> linkarea s B" for a
  proof (rule im(3))
    show "a < b \<or> b + 16 \<le> a" using notin_linkarea_block [OF that, of b] b by auto
    show "xs = [] \<longrightarrow> a < ?r \<or> ?r + 8 \<le> a" using notin_linkarea_root [OF that] i10 by auto
    show "xs \<noteq> [] \<longrightarrow> a < last xs + 8 \<or> last xs + 16 \<le> a"
      using notin_linkarea_block [OF that, of "last xs"] mem [OF pin] by auto
    show "ys \<noteq> [] \<longrightarrow> a < hd ys \<or> hd ys + 8 \<le> a"
      using notin_linkarea_block [OF that, of "hd ys"] mem [OF nin] by auto
  qed
  note lf = links_frame [OF st fr]
  have acc: "bsize m' c = bsize ?m c \<and> balloc m' c = balloc ?m c" if "c \<in> B" for c
    using acc_eq [OF lf(1) [of c]] that by simp
  have other: "GET_8B m' c = GET_8B ?m c"
    if "\<And>z. z \<in> set (b # L i) \<Longrightarrow> c + 8 \<le> z \<or> z + 16 \<le> c" "c + 8 \<le> ?r \<or> ?r + 8 \<le> c" for c
  proof (rule GET_8B_cong, rule im(3))
    fix a assume a: "c \<le> a" "a < c + 8"
    show "a < b \<or> b + 16 \<le> a" using that(1) [of b] a by auto
    show "xs = [] \<longrightarrow> a < ?r \<or> ?r + 8 \<le> a" using that(2) a by auto
    show "xs \<noteq> [] \<longrightarrow> a < last xs + 8 \<or> last xs + 16 \<le> a" using that(1) [of "last xs"] pin a by auto
    show "ys \<noteq> [] \<longrightarrow> a < hd ys \<or> hd ys + 8 \<le> a" using that(1) [of "hd ys"] nin a by auto
  qed
  have srt: "sorted_wrt (\<lambda>x y. bsize ?m x \<le> bsize ?m y) (xs @ b # ys)"
  proof (rule sorted_wrt_insert_mid)
    show "sorted_wrt (\<lambda>x y. bsize ?m x \<le> bsize ?m y) (xs @ ys)" using l(4) sc(1) by simp
    show "bsize ?m x \<le> bsize ?m b" if "x \<in> set xs" for x using sc(3) that usz by auto
    show "bsize ?m b \<le> bsize ?m y" if "y \<in> set ys" for y
    proof -
      have ne: "ys \<noteq> []" using that by auto
      then have h: "bsize ?m b \<le> bsize ?m (hd ys)" using sc(4) usz by simp
      have "sorted_wrt (\<lambda>x y. bsize ?m x \<le> bsize ?m y) ys"
        using l(4) sc(1) by (simp add: sorted_wrt_append)
      then have "bsize ?m (hd ys) \<le> bsize ?m y" using that by (cases ys) auto
      with h show ?thesis by simp
    qed
  qed
  have lists: "lists_ok (s\<lparr>mem := m'\<rparr>) B (L(i := xs @ b # ys)) (U - {b})"
    unfolding lists_ok_def
  proof (intro conjI allI impI ballI)
    fix j :: nat assume j: "j < 10"
    note lj = lists_okD [OF li j]
    have memj: "y \<in> B \<and> \<not> balloc ?m y \<and> y \<notin> U \<and> bucket (bsize ?m y) = j" if "y \<in> set (L j)" for y
      using lj(5) [OF that] .
    have cellj: "GET_PREVP m' y = GET_PREVP ?m y \<and> GET_NEXTP m' y = GET_NEXTP ?m y"
      if "y \<in> set (L j)" "j \<noteq> i" for y
    proof -
      have ne: "y \<noteq> z" if "z \<in> set (b # L i)" for z
        using memj [OF \<open>y \<in> set (L j)\<close>] mem [of z] that \<open>j \<noteq> i\<close> b(3) by auto
      have s1: "y + 24 \<le> z \<or> z + 24 \<le> y" if "z \<in> set (b # L i)" for z
      proof -
        have "z \<in> B" using that mem [of z] b(1) by auto
        then show ?thesis using free_sep [OF st _ _ ne [OF that]] memj [OF \<open>y \<in> set (L j)\<close>] by auto
      qed
      have yb: "?seg + 96 \<le> y" using struct_okD(1) [OF st, of y] memj [OF that(1)] by simp
      have "GET_8B m' y = GET_8B ?m y"
      proof (rule other)
        fix z assume "z \<in> set (b # L i)"
        then show "y + 8 \<le> z \<or> z + 16 \<le> y" using s1 [of z] by auto
      next
        show "y + 8 \<le> ?r \<or> ?r + 8 \<le> y" using yb i10 by auto
      qed
      moreover have "GET_8B m' (y + 8) = GET_8B ?m (y + 8)"
      proof (rule other)
        fix z assume "z \<in> set (b # L i)"
        then show "y + 8 + 8 \<le> z \<or> z + 16 \<le> y + 8" using s1 [of z] by auto
      next
        show "y + 8 + 8 \<le> ?r \<or> ?r + 8 \<le> y + 8" using yb i10 by auto
      qed
      ultimately show ?thesis by (simp add: link_defs)
    qed
    show "dlseg (mem (s\<lparr>mem := m'\<rparr>)) 0 ((L(i := xs @ b # ys)) j) 0"
    proof (cases "j = i")
      case True
      then show ?thesis using im(1) by simp
    next
      case False
      have "dlseg m' 0 (L j) 0"
        by (rule dlseg_cong [OF lj(1)]) (use cellj False in blast)
      then show ?thesis using False by simp
    qed
    show "unat (GET_8B (mem (s\<lparr>mem := m'\<rparr>)) (seg_free_listp (s\<lparr>mem := m'\<rparr>) + 8 * j))
        = hd_or ((L(i := xs @ b # ys)) j) 0"
    proof (cases "j = i")
      case True
      then show ?thesis using im(2) by simp
    next
      case False
      have "GET_8B m' (?seg + 8 * j) = GET_8B ?m (?seg + 8 * j)"
      proof (rule other)
        fix z assume "z \<in> set (b # L i)"
        then have "z \<in> B" using mem [of z] b(1) by auto
        then show "?seg + 8 * j + 8 \<le> z \<or> z + 16 \<le> ?seg + 8 * j"
          using struct_okD(1) [OF st, of z] j by auto
      next
        show "?seg + 8 * j + 8 \<le> ?r \<or> ?r + 8 \<le> ?seg + 8 * j" using False by auto
      qed
      then show ?thesis using lj(2) False by simp
    qed
    show "distinct ((L(i := xs @ b # ys)) j)" using lj(3) di bn by (cases "j = i") auto
    show "sorted_wrt (\<lambda>x y. bsize (mem (s\<lparr>mem := m'\<rparr>)) x \<le> bsize (mem (s\<lparr>mem := m'\<rparr>)) y) ((L(i := xs @ b # ys)) j)"
    proof (cases "j = i")
      case True
      have "bsize m' z = bsize ?m z" if "z \<in> set (xs @ b # ys)" for z
        using acc [of z] mem [of z] that sc(1) b(1) by auto
      with srt have "sorted_wrt (\<lambda>x y. bsize m' x \<le> bsize m' y) (xs @ b # ys)"
        by (rule sorted_wrt_bsize_cong)
      then show ?thesis using True by simp
    next
      case False
      have "bsize m' z = bsize ?m z" if "z \<in> set (L j)" for z
        using acc [of z] memj [of z] that by auto
      with lj(4) have "sorted_wrt (\<lambda>x y. bsize m' x \<le> bsize m' y) (L j)"
        by (rule sorted_wrt_bsize_cong)
      then show ?thesis using False by simp
    qed
    fix y assume y: "y \<in> set ((L(i := xs @ b # ys)) j)"
    have yj: "(y \<in> set (L j) \<or> (y = b \<and> j = i)) \<and> y \<in> B \<and> \<not> balloc ?m y
        \<and> bucket (bsize ?m y) = j \<and> (y = b \<or> y \<notin> U)"
    proof (cases "j = i")
      case True
      then show ?thesis using y sc(1) mem [of y] b i by auto
    next
      case False
      then show ?thesis using y memj [of y] by auto
    qed
    show "y \<in> B" using yj by simp
    show "\<not> balloc (mem (s\<lparr>mem := m'\<rparr>)) y" using yj acc [of y] by simp
    show "y \<notin> U - {b}" using yj by auto
    show "bucket (bsize (mem (s\<lparr>mem := m'\<rparr>)) y) = j" using yj acc [of y] by simp
  next
    fix c assume c: "c \<in> B"
    show "balloc (mem (s\<lparr>mem := m'\<rparr>)) c \<or> c \<in> U - {b}
        \<or> c \<in> set ((L(i := xs @ b # ys)) (bucket (bsize (mem (s\<lparr>mem := m'\<rparr>)) c)))"
    proof (cases "balloc ?m c \<or> (c \<in> U \<and> c \<noteq> b)")
      case True
      then show ?thesis using acc [OF c] by auto
    next
      case False
      then have "c = b \<or> c \<in> set (L (bucket (bsize ?m c)))"
        using lists_ok_listed [OF li c] by auto
      then show ?thesis using acc [OF c] sc(1) i by auto
    qed
  qed
  show ?thesis using ins fr sc(1) lists by blast
qed

lemma replacedD:
  assumes "replaced s B m' lo hi N"
  shows "lo \<in> B" and "lo < hi" and "hi \<in> B \<or> hi = mem_brk s"
    and "\<And>a. a < lo - 4 \<or> hi \<le> a \<Longrightarrow> m' a = mem s a"
    and "bsize m' hi = bsize (mem s) hi" and "balloc m' hi = balloc (mem s) hi"
    and "bprev m' lo = bprev (mem s) lo"
    and "lo \<in> N" and "\<exists>p\<in>N. p + bsize m' p = hi"
  using assms unfolding replaced_def by blast+

lemma replaced_newD:
  assumes "replaced s B m' lo hi N" and "b \<in> N"
  shows "lo \<le> b" and "8 dvd b" and "24 \<le> bsize m' b" and "b + bsize m' b \<le> hi"
    and "b + bsize m' b = hi \<or> b + bsize m' b \<in> N"
    and "bprev m' (b + bsize m' b) \<longleftrightarrow> balloc m' b"
    and "b = lo \<or> (\<exists>p\<in>N. p + bsize m' p = b)"
    and "balloc m' b \<or> GET_SIZE m' (FTRP m' b) = GET_SIZE m' (HDRP b)"
    and "\<And>b'. b' \<in> N \<Longrightarrow> b < b' \<Longrightarrow> b + bsize m' b \<le> b'"
  using assms unfolding replaced_def by blast+

text \<open>A block outside the replaced range keeps all its bytes, but for the header of \<open>hi\<close>.\<close>

lemma replaced_outside:
  assumes st: "struct_ok s B" and rp: "replaced s B m' lo hi N"
    and c: "c \<in> B" "c < lo \<or> hi \<le> c"
  shows "\<And>a. c \<le> a \<Longrightarrow> a < c + bsize (mem s) c - 4 \<Longrightarrow> m' a = mem s a"
    and "c \<noteq> hi \<Longrightarrow> GET m' (HDRP c) = GET (mem s) (HDRP c)"
    and "bsize m' c = bsize (mem s) c" and "balloc m' c = balloc (mem s) c"
    and "c \<noteq> hi \<Longrightarrow> bprev m' c = bprev (mem s) c"
    and "FTRP m' c = FTRP (mem s) c"
    and "GET m' (FTRP (mem s) c) = GET (mem s) (FTRP (mem s) c)"
    and "c + bsize (mem s) c \<le> lo \<or> hi \<le> c"
proof -
  note r = replacedD [OF rp]
  note d = struct_okD [OF st c(1)]
  have pos: "c + bsize (mem s) c \<le> lo \<or> hi \<le> c"
    using c(2) struct_ok_disj [OF st c(1) r(1)] r(2) by auto
  then show "c + bsize (mem s) c \<le> lo \<or> hi \<le> c" .
  show pay: "m' a = mem s a" if "c \<le> a" "a < c + bsize (mem s) c - 4" for a
    using pos that by (intro r(4)) auto
  have hdr: "GET m' (HDRP c) = GET (mem s) (HDRP c)" if "c \<noteq> hi"
  proof (rule GET_cong, rule r(4))
    fix a assume a: "HDRP c \<le> a" "a < HDRP c + 4"
    have "hi + 24 \<le> c" if "hi \<le> c"
    proof -
      have "hi \<in> B" using r(3) that d(4) struct_okD(3) [OF st c(1)] by auto
      then show ?thesis using free_sep [OF st c(1) _ \<open>c \<noteq> hi\<close>] that by auto
    qed
    then show "a < lo - 4 \<or> hi \<le> a" using pos a d(1,3) by (auto simp: HDRP_def)
  qed
  then show "c \<noteq> hi \<Longrightarrow> GET m' (HDRP c) = GET (mem s) (HDRP c)" .
  show bs: "bsize m' c = bsize (mem s) c" using acc_eq(1) [OF hdr] r(5) by (cases "c = hi") auto
  show "balloc m' c = balloc (mem s) c" using acc_eq(2) [OF hdr] r(6) by (cases "c = hi") auto
  show "c \<noteq> hi \<Longrightarrow> bprev m' c = bprev (mem s) c" using acc_eq(3) [OF hdr] by simp
  show "FTRP m' c = FTRP (mem s) c" using bs by (simp add: FTRP_def bsize_def)
  show "GET m' (FTRP (mem s) c) = GET (mem s) (FTRP (mem s) c)"
  proof (rule GET_cong, rule r(4))
    fix a assume a: "FTRP (mem s) c \<le> a" "a < FTRP (mem s) c + 4"
    then show "a < lo - 4 \<or> hi \<le> a" using pos d(1,3) by (auto simp: FTRP_def bsize_def)
  qed
qed

lemma replaced_brk:
  assumes st: "struct_ok s B" and rp: "replaced s B m' lo hi N"
  shows "bsize m' (mem_brk s) = bsize (mem s) (mem_brk s)"
    and "balloc m' (mem_brk s) = balloc (mem s) (mem_brk s)"
    and "hi \<noteq> mem_brk s \<Longrightarrow> bprev m' (mem_brk s) = bprev (mem s) (mem_brk s)"
    and "hi \<le> mem_brk s"
proof -
  note r = replacedD [OF rp]
  show hb: "hi \<le> mem_brk s" using r(3) struct_okD(4) [OF st, of hi] struct_okD(3) [OF st, of hi] by auto
  have hdr: "GET m' (HDRP (mem_brk s)) = GET (mem s) (HDRP (mem_brk s))" if "hi \<noteq> mem_brk s"
  proof (rule GET_cong, rule r(4))
    fix a assume a: "HDRP (mem_brk s) \<le> a" "a < HDRP (mem_brk s) + 4"
    have "hi \<in> B" using r(3) that by auto
    then have "hi + 24 \<le> mem_brk s" using struct_okD(3,4) [OF st, of hi] by auto
    then show "a < lo - 4 \<or> hi \<le> a" using a by (auto simp: HDRP_def)
  qed
  show "bsize m' (mem_brk s) = bsize (mem s) (mem_brk s)"
    using acc_eq(1) [OF hdr] r(5) by (cases "hi = mem_brk s") auto
  show "balloc m' (mem_brk s) = balloc (mem s) (mem_brk s)"
    using acc_eq(2) [OF hdr] r(6) by (cases "hi = mem_brk s") auto
  show "hi \<noteq> mem_brk s \<Longrightarrow> bprev m' (mem_brk s) = bprev (mem s) (mem_brk s)"
    using acc_eq(3) [OF hdr] by simp
qed

lemma replaced_prologue:
  assumes st: "struct_ok s B" and rp: "replaced s B m' lo hi N"
  shows "GET m' (seg_free_listp s + 84) = GET (mem s) (seg_free_listp s + 84)"
    and "GET m' (seg_free_listp s + 88) = GET (mem s) (seg_free_listp s + 88)"
    and "\<And>i. i < 10 \<Longrightarrow> GET_8B m' (seg_free_listp s + 8 * i) = GET_8B (mem s) (seg_free_listp s + 8 * i)"
proof -
  note r = replacedD [OF rp]
  have lo: "seg_free_listp s + 96 \<le> lo" using struct_okD(1) [OF st r(1)] .
  show "GET m' (seg_free_listp s + 84) = GET (mem s) (seg_free_listp s + 84)"
    by (rule GET_cong, rule r(4)) (use lo in auto)
  show "GET m' (seg_free_listp s + 88) = GET (mem s) (seg_free_listp s + 88)"
    by (rule GET_cong, rule r(4)) (use lo in auto)
  show "GET_8B m' (seg_free_listp s + 8 * i) = GET_8B (mem s) (seg_free_listp s + 8 * i)"
    if "i < 10" for i
    by (rule GET_8B_cong, rule r(4)) (use lo that in auto)
qed

text \<open>Replacing the blocks of a range by a new tiling of the range keeps the tiling of the heap.\<close>

lemma struct_replace:
  assumes st: "struct_ok s B" and rp: "replaced s B m' lo hi N"
  shows "struct_ok (s\<lparr>mem := m'\<rparr>) (rep_set B lo hi N)"
proof -
  let ?m = "mem s"
  let ?B' = "rep_set B lo hi N"
  let ?first = "seg_free_listp s + 96"
  note r = replacedD [OF rp]
  note g = struct_ok_globals [OF st]
  note out = replaced_outside [OF st rp]
  note nw = replaced_newD [OF rp]
  note bk = replaced_brk [OF st rp]
  note pl = replaced_prologue [OF st rp]
  have lo1: "?first \<le> lo" using struct_okD(1) [OF st r(1)] .
  have old_end: "c + bsize ?m c \<le> hi" if "c \<in> B" "c < hi" for c
  proof (cases "hi \<in> B")
    case True
    then show ?thesis using struct_ok_disj [OF st that(1) True] that(2) by auto
  next
    case False
    then show ?thesis using r(3) struct_okD(4) [OF st that(1)] by auto
  qed
  have hi_in: "hi \<in> ?B' \<or> hi = mem_brk s" using r(3) by (auto simp: rep_set_def)
  have first: "?first = mem_brk s \<or> ?first \<in> ?B'"
  proof -
    have "?first \<in> B" using g(14) r(1) struct_okD(4) [OF st r(1)] struct_okD(3) [OF st r(1)] lo1 by auto
    then show ?thesis using lo1 r(8) by (cases "?first = lo") (auto simp: rep_set_def)
  qed
  have bp_first: "bprev m' ?first"
  proof (cases "?first = lo")
    case True
    then show ?thesis using r(7) g(13) by simp
  next
    case False
    then have "?first \<in> B" "?first < lo" using first lo1 g(14) r(1) struct_okD(4) [OF st r(1)] struct_okD(3) [OF st r(1)] by auto
    then show ?thesis using out(5) [of ?first] r(2) g(13) by auto
  qed
  have ep: "bsize m' (mem_brk s) = 0" "balloc m' (mem_brk s)" using bk g(11,12) by auto
  have old: "?first \<le> b \<and> 8 dvd b \<and> 24 \<le> bsize m' b \<and> b + bsize m' b \<le> mem_brk s
      \<and> (b + bsize m' b = mem_brk s \<or> b + bsize m' b \<in> ?B')
      \<and> (bprev m' (b + bsize m' b) \<longleftrightarrow> balloc m' b)
      \<and> (b = ?first \<or> (\<exists>p\<in>?B'. p + bsize m' p = b))
      \<and> (balloc m' b \<or> GET_SIZE m' (FTRP m' b) = GET_SIZE m' (HDRP b))
      \<and> (\<forall>b'\<in>?B'. b < b' \<longrightarrow> b + bsize m' b \<le> b')"
    if b: "b \<in> B" "b < lo \<or> hi \<le> b" for b
  proof -
    note d = struct_okD [OF st b(1)]
    note o = out [OF b]
    have bs: "bsize m' b = bsize ?m b" using o(3) .
    have pos: "b + bsize ?m b \<le> lo \<or> hi \<le> b" using o(8) .
    have succ: "b + bsize ?m b = mem_brk s \<or> b + bsize ?m b \<in> ?B'"
    proof (cases "b + bsize ?m b = mem_brk s")
      case False
      then have sB: "b + bsize ?m b \<in> B" using d(5) by simp
      show ?thesis
      proof (cases "b + bsize ?m b = lo")
        case True
        then show ?thesis using r(8) by (simp add: rep_set_def)
      next
        case False
        have "b + bsize ?m b < lo \<or> hi \<le> b + bsize ?m b" using pos False by auto
        then show ?thesis using sB by (simp add: rep_set_def)
      qed
    qed simp
    have sne: "b + bsize ?m b \<noteq> hi" using pos r(2) d(3) by auto
    have pv: "bprev m' (b + bsize ?m b) \<longleftrightarrow> balloc ?m b"
    proof (cases "b + bsize ?m b = lo")
      case True
      then show ?thesis using r(7) d(6) by simp
    next
      case False
      have lt: "b + bsize ?m b < lo \<or> hi \<le> b + bsize ?m b" using pos False by auto
      show ?thesis
      proof (cases "b + bsize ?m b = mem_brk s")
        case True
        then show ?thesis using bk(3) sne d(6) by auto
      next
        case False
        then have "b + bsize ?m b \<in> B" using d(5) by simp
        then show ?thesis using out(5) [OF _ lt sne] d(6) by simp
      qed
    qed
    have pd: "b = ?first \<or> (\<exists>p\<in>?B'. p + bsize m' p = b)"
    proof (cases "b = ?first")
      case False
      then obtain p where p: "p \<in> B" "p + bsize ?m p = b" using d(7) by auto
      show ?thesis
      proof (cases "p < lo \<or> hi \<le> p")
        case True
        then have "p \<in> ?B'" using p(1) by (simp add: rep_set_def)
        moreover have "p + bsize m' p = b" using p(2) out(3) [OF p(1) True] by simp
        ultimately show ?thesis by blast
      next
        case False
        then have "lo \<le> p" "p < hi" by auto
        then have "b \<le> hi" using old_end [OF p(1)] p(2) by simp
        moreover have "lo < b" using \<open>lo \<le> p\<close> p(2) struct_okD(3) [OF st p(1)] by simp
        ultimately have "b = hi" using b(2) by simp
        then obtain q where "q \<in> N" "q + bsize m' q = b" using r(9) by auto
        then have "q \<in> ?B'" "q + bsize m' q = b" by (auto simp: rep_set_def)
        then show ?thesis by blast
      qed
    qed simp
    have ft: "balloc m' b \<or> GET_SIZE m' (FTRP m' b) = GET_SIZE m' (HDRP b)"
    proof -
      have "GET_SIZE m' (HDRP b) = GET_SIZE ?m (HDRP b)"
        using bs unsigned_word_eqI [of "GET_SIZE m' (HDRP b)" "GET_SIZE ?m (HDRP b)"]
        by (simp add: bsize_def)
      then show ?thesis using d(8) o(4,6,7) by (simp add: GET_SIZE_def)
    qed
    have no: "b + bsize m' b \<le> b'" if "b' \<in> ?B'" "b < b'" for b'
    proof (cases "b' \<in> N")
      case True
      then have "lo \<le> b'" using nw(1) by simp
      moreover have "b + bsize ?m b \<le> lo" using pos that(2) nw(4) [OF True] nw(3) [OF True] by auto
      ultimately show ?thesis using bs by simp
    next
      case False
      then have "b' \<in> B" using that(1) by (simp add: rep_set_def)
      then show ?thesis using struct_ok_disj [OF st b(1), of b'] that(2) bs struct_okD(3) [OF st, of b'] by auto
    qed
    show ?thesis using d(1,2,3,4) bs succ pv o(4) pd ft no by auto
  qed
  have new: "?first \<le> b \<and> 8 dvd b \<and> 24 \<le> bsize m' b \<and> b + bsize m' b \<le> mem_brk s
      \<and> (b + bsize m' b = mem_brk s \<or> b + bsize m' b \<in> ?B')
      \<and> (bprev m' (b + bsize m' b) \<longleftrightarrow> balloc m' b)
      \<and> (b = ?first \<or> (\<exists>p\<in>?B'. p + bsize m' p = b))
      \<and> (balloc m' b \<or> GET_SIZE m' (FTRP m' b) = GET_SIZE m' (HDRP b))
      \<and> (\<forall>b'\<in>?B'. b < b' \<longrightarrow> b + bsize m' b \<le> b')"
    if b: "b \<in> N" for b
  proof -
    note n = nw [OF b]
    have succ: "b + bsize m' b = mem_brk s \<or> b + bsize m' b \<in> ?B'"
      using n(5) hi_in by (auto simp: rep_set_def)
    have pd: "b = ?first \<or> (\<exists>p\<in>?B'. p + bsize m' p = b)"
    proof (cases "b = lo")
      case True
      show ?thesis
      proof (cases "lo = ?first")
        case False
        then obtain p where p: "p \<in> B" "p + bsize ?m p = lo" using struct_okD(7) [OF st r(1)] by auto
        then have pl: "p < lo" using struct_okD(3) [OF st p(1)] by simp
        then have "p \<in> ?B'" using p(1) by (simp add: rep_set_def)
        moreover have "p + bsize m' p = b" using p(2) out(3) [OF p(1)] pl True by simp
        ultimately show ?thesis by blast
      qed (use True in simp)
    next
      case False
      then obtain q where "q \<in> N" "q + bsize m' q = b" using n(7) by auto
      then have "q \<in> ?B'" "q + bsize m' q = b" by (auto simp: rep_set_def)
      then show ?thesis by blast
    qed
    have no: "b + bsize m' b \<le> b'" if "b' \<in> ?B'" "b < b'" for b'
    proof (cases "b' \<in> N")
      case True
      then show ?thesis using n(9) that(2) by simp
    next
      case False
      then have b': "b' \<in> B" "b' < lo \<or> hi \<le> b'" using that(1) by (auto simp: rep_set_def)
      then show ?thesis using n(1,4) that(2) by auto
    qed
    show ?thesis using n lo1 bk(4) succ pd no by auto
  qed
  show ?thesis
    unfolding struct_ok_def
  proof (intro conjI ballI)
    fix b assume "b \<in> ?B'"
    have c: "?first \<le> b \<and> 8 dvd b \<and> 24 \<le> bsize m' b \<and> b + bsize m' b \<le> mem_brk s
      \<and> (b + bsize m' b = mem_brk s \<or> b + bsize m' b \<in> ?B')
      \<and> (bprev m' (b + bsize m' b) \<longleftrightarrow> balloc m' b)
      \<and> (b = ?first \<or> (\<exists>p\<in>?B'. p + bsize m' p = b))
      \<and> (balloc m' b \<or> GET_SIZE m' (FTRP m' b) = GET_SIZE m' (HDRP b))
      \<and> (\<forall>b'\<in>?B'. b < b' \<longrightarrow> b + bsize m' b \<le> b')"
    proof (cases "b \<in> N")
      case True
      then show ?thesis by (rule new)
    next
      case False
      with \<open>b \<in> ?B'\<close> have "b \<in> B" "b < lo \<or> hi \<le> b" by (auto simp: rep_set_def)
      then show ?thesis by (rule old)
    qed
    show "seg_free_listp (s\<lparr>mem := m'\<rparr>) + 96 \<le> b" using c by simp
    show "8 dvd b" using c by simp
    show "24 \<le> bsize (mem (s\<lparr>mem := m'\<rparr>)) b" using c by simp
    show "b + bsize (mem (s\<lparr>mem := m'\<rparr>)) b \<le> mem_brk (s\<lparr>mem := m'\<rparr>)" using c by simp
    show "b + bsize (mem (s\<lparr>mem := m'\<rparr>)) b = mem_brk (s\<lparr>mem := m'\<rparr>)
        \<or> b + bsize (mem (s\<lparr>mem := m'\<rparr>)) b \<in> ?B'" using c by simp
    show "bprev (mem (s\<lparr>mem := m'\<rparr>)) (b + bsize (mem (s\<lparr>mem := m'\<rparr>)) b)
        = balloc (mem (s\<lparr>mem := m'\<rparr>)) b" using c by simp
    show "b = seg_free_listp (s\<lparr>mem := m'\<rparr>) + 96
        \<or> (\<exists>p\<in>?B'. p + bsize (mem (s\<lparr>mem := m'\<rparr>)) p = b)" using c by simp
    show "balloc (mem (s\<lparr>mem := m'\<rparr>)) b
        \<or> GET_SIZE (mem (s\<lparr>mem := m'\<rparr>)) (FTRP (mem (s\<lparr>mem := m'\<rparr>)) b)
          = GET_SIZE (mem (s\<lparr>mem := m'\<rparr>)) (HDRP b)" using c by simp
    fix b' assume "b' \<in> ?B'"
    then show "b < b' \<longrightarrow> b + bsize (mem (s\<lparr>mem := m'\<rparr>)) b \<le> b'" using c by simp
  qed (use g ep bp_first first pl in simp_all)
qed

lemma keeps_refl: "keeps X s B s B"
  by (simp add: keeps_def)

lemma keeps_trans:
  assumes "keeps X s B s1 B1" and "keeps Y s1 B1 s2 B2"
  shows "keeps (X \<union> Y) s B s2 B2"
  unfolding keeps_def
proof (intro conjI ballI)
  fix b assume b: "b \<in> B"
  show "b \<in> X \<union> Y \<or> \<not> balloc (mem s) b
        \<or> (b \<in> B2 \<and> balloc (mem s2) b \<and> bsize (mem s2) b = bsize (mem s) b
            \<and> (\<forall>a. b \<le> a \<and> a < b + bsize (mem s) b - 4 \<longrightarrow> mem s2 a = mem s a))"
  proof (cases "b \<in> X \<union> Y \<or> \<not> balloc (mem s) b")
    case False
    then have 1: "b \<in> B1" "balloc (mem s1) b" "bsize (mem s1) b = bsize (mem s) b"
      "\<forall>a. b \<le> a \<and> a < b + bsize (mem s) b - 4 \<longrightarrow> mem s1 a = mem s a"
      using assms(1) b unfolding keeps_def by blast+
    then have 2: "b \<in> B2" "balloc (mem s2) b" "bsize (mem s2) b = bsize (mem s1) b"
      "\<forall>a. b \<le> a \<and> a < b + bsize (mem s1) b - 4 \<longrightarrow> mem s2 a = mem s1 a"
      using assms(2) False unfolding keeps_def by blast+
    show ?thesis using 1 2 by simp
  qed auto
next
  fix b assume b: "b \<in> B2"
  show "b \<in> X \<union> Y \<or> \<not> balloc (mem s2) b \<or> (b \<in> B \<and> balloc (mem s) b)"
  proof (cases "b \<in> X \<union> Y \<or> \<not> balloc (mem s2) b")
    case False
    then have "b \<in> B1 \<and> balloc (mem s1) b" using assms(2) b unfolding keeps_def by blast
    then show ?thesis using assms(1) False unfolding keeps_def by blast
  qed auto
qed

lemma keeps_mono: "keeps X s B s' B' \<Longrightarrow> X \<subseteq> Y \<Longrightarrow> keeps Y s B s' B'"
  unfolding keeps_def by blast

lemma keeps_links:
  assumes st: "struct_ok s B" and fr: "\<And>a. a \<notin> linkarea s B \<Longrightarrow> m' a = mem s a"
  shows "keeps {} s B (s\<lparr>mem := m'\<rparr>) B"
proof -
  note lf = links_frame [OF st fr]
  have acc: "bsize m' c = bsize (mem s) c \<and> balloc m' c = balloc (mem s) c" if "c \<in> B" for c
    using acc_eq [OF lf(1) [of c]] that by simp
  have pay: "m' a = mem s a" if "c \<in> B" "balloc (mem s) c" "c \<le> a" "a < c + bsize (mem s) c - 4" for c a
    using that by (intro fr pay_not_linkarea [OF st])
  show ?thesis unfolding keeps_def using acc pay by auto
qed

lemma keeps_replace:
  assumes st: "struct_ok s B" and rp: "replaced s B m' lo hi N"
    and old: "\<And>c. c \<in> B \<Longrightarrow> lo \<le> c \<Longrightarrow> c < hi \<Longrightarrow> \<not> balloc (mem s) c \<or> c \<in> X"
    and new: "\<And>b. b \<in> N \<Longrightarrow> \<not> balloc m' b \<or> b \<in> X"
  shows "keeps X s B (s\<lparr>mem := m'\<rparr>) (rep_set B lo hi N)"
  unfolding keeps_def
proof (intro conjI ballI)
  fix b assume b: "b \<in> B"
  show "b \<in> X \<or> \<not> balloc (mem s) b
        \<or> (b \<in> rep_set B lo hi N \<and> balloc (mem (s\<lparr>mem := m'\<rparr>)) b
            \<and> bsize (mem (s\<lparr>mem := m'\<rparr>)) b = bsize (mem s) b
            \<and> (\<forall>a. b \<le> a \<and> a < b + bsize (mem s) b - 4 \<longrightarrow> mem (s\<lparr>mem := m'\<rparr>) a = mem s a))"
  proof (cases "b \<in> X \<or> \<not> balloc (mem s) b")
    case False
    have o: "b < lo \<or> hi \<le> b"
    proof (rule ccontr)
      assume "\<not> (b < lo \<or> hi \<le> b)"
      then have "lo \<le> b" "b < hi" by auto
      from old [OF b this] False show False by simp
    qed
    note out = replaced_outside [OF st rp b o]
    show ?thesis using False b o out(1,3,4) by (simp add: rep_set_def)
  qed auto
next
  fix b assume b: "b \<in> rep_set B lo hi N"
  show "b \<in> X \<or> \<not> balloc (mem (s\<lparr>mem := m'\<rparr>)) b \<or> (b \<in> B \<and> balloc (mem s) b)"
  proof (cases "b \<in> N")
    case True
    then show ?thesis using new by auto
  next
    case False
    then have o: "b \<in> B" "b < lo \<or> hi \<le> b" using b by (auto simp: rep_set_def)
    show ?thesis using replaced_outside(4) [OF st rp o] o(1) by simp
  qed
qed

lemma lists_ok_U: "lists_ok s B L U \<Longrightarrow> (\<And>b. b \<in> B \<Longrightarrow> b \<in> U \<longleftrightarrow> b \<in> U') \<Longrightarrow> lists_ok s B L U'"
  unfolding lists_ok_def by blast

lemma new_in_range:
  assumes "replaced s B m' lo hi N" and "b \<in> N"
  shows "lo \<le> b" and "b < hi"
  using replaced_newD(1,3,4) [OF assms] by auto

lemma lists_ok_replace:
  assumes st: "struct_ok s B" and rp: "replaced s B m' lo hi N" and li: "lists_ok s B L U"
    and old: "\<And>c. c \<in> B \<Longrightarrow> lo \<le> c \<Longrightarrow> c < hi \<Longrightarrow> balloc (mem s) c \<or> c \<in> U"
    and U': "U' = {u \<in> U. u < lo \<or> hi \<le> u} \<union> {b \<in> N. \<not> balloc m' b}"
  shows "lists_ok (s\<lparr>mem := m'\<rparr>) (rep_set B lo hi N) L U'"
proof -
  let ?m = "mem s"
  note pl = replaced_prologue [OF st rp]
  have listed: "x \<in> B \<and> (x < lo \<or> hi \<le> x) \<and> \<not> balloc ?m x \<and> x \<notin> U \<and> bucket (bsize ?m x) = j"
    if "j < 10" "x \<in> set (L j)" for j x
  proof -
    note l = lists_okD(5) [OF li that]
    have "x < lo \<or> hi \<le> x"
    proof (rule ccontr)
      assume "\<not> (x < lo \<or> hi \<le> x)"
      then have "lo \<le> x" "x < hi" by auto
      from old [OF _ this] l show False by simp
    qed
    then show ?thesis using l by simp
  qed
  have same: "bsize m' x = bsize ?m x \<and> balloc m' x = balloc ?m x
      \<and> GET_PREVP m' x = GET_PREVP ?m x \<and> GET_NEXTP m' x = GET_NEXTP ?m x"
    if x: "x \<in> B" "x < lo \<or> hi \<le> x" for x
  proof -
    note out = replaced_outside [OF st rp x]
    have sz: "24 \<le> bsize ?m x" using struct_okD(3) [OF st x(1)] .
    have "GET_8B m' x = GET_8B ?m x" by (rule GET_8B_cong, rule out(1)) (use sz in auto)
    moreover have "GET_8B m' (x + 8) = GET_8B ?m (x + 8)"
      by (rule GET_8B_cong, rule out(1)) (use sz in auto)
    ultimately show ?thesis using out(3,4) by (simp add: link_defs)
  qed
  show ?thesis
    unfolding lists_ok_def
  proof (intro conjI allI impI ballI)
    fix j :: nat assume j: "j < 10"
    note lj = lists_okD [OF li j]
    show "dlseg (mem (s\<lparr>mem := m'\<rparr>)) 0 (L j) 0"
      using dlseg_cong [OF lj(1), of m'] listed [OF j] same by simp
    show "unat (GET_8B (mem (s\<lparr>mem := m'\<rparr>)) (seg_free_listp (s\<lparr>mem := m'\<rparr>) + 8 * j)) = hd_or (L j) 0"
      using lj(2) pl(3) [OF j] by simp
    show "distinct (L j)" using lj(3) .
    have "bsize m' z = bsize ?m z" if "z \<in> set (L j)" for z
      using listed [OF j that] same [of z] by simp
    with lj(4) show "sorted_wrt (\<lambda>x y. bsize (mem (s\<lparr>mem := m'\<rparr>)) x \<le> bsize (mem (s\<lparr>mem := m'\<rparr>)) y) (L j)"
      by (simp add: sorted_wrt_bsize_cong)
    fix x assume x: "x \<in> set (L j)"
    note lx = listed [OF j x]
    show "x \<in> rep_set B lo hi N" using lx by (simp add: rep_set_def)
    show "\<not> balloc (mem (s\<lparr>mem := m'\<rparr>)) x" using lx same [of x] by simp
    show "x \<notin> U'" using lx new_in_range [OF rp, of x] by (auto simp: U')
    show "bucket (bsize (mem (s\<lparr>mem := m'\<rparr>)) x) = j" using lx same [of x] by simp
  next
    fix b assume b: "b \<in> rep_set B lo hi N"
    show "balloc (mem (s\<lparr>mem := m'\<rparr>)) b \<or> b \<in> U'
        \<or> b \<in> set (L (bucket (bsize (mem (s\<lparr>mem := m'\<rparr>)) b)))"
    proof (cases "b \<in> N")
      case True
      then show ?thesis by (auto simp: U')
    next
      case False
      then have o: "b \<in> B" "b < lo \<or> hi \<le> b" using b by (auto simp: rep_set_def)
      show ?thesis using lists_ok_listed [OF li o(1)] same [OF o] o(2) by (auto simp: U')
    qed
  qed
qed

lemma coalesced_replace:
  assumes st: "struct_ok s B" and rp: "replaced s B m' lo hi N" and co: "coalesced s B X"
  shows "coalesced (s\<lparr>mem := m'\<rparr>) (rep_set B lo hi N) ({x \<in> X. x < lo \<or> hi \<le> x} \<union> N \<union> {hi})"
  unfolding coalesced_def
proof (intro ballI)
  fix b assume b: "b \<in> rep_set B lo hi N"
  let ?X' = "{x \<in> X. x < lo \<or> hi \<le> x} \<union> N \<union> {hi}"
  show "b \<in> ?X' \<or> balloc (mem (s\<lparr>mem := m'\<rparr>)) b
      \<or> bprev (mem (s\<lparr>mem := m'\<rparr>)) b
        \<and> GET (mem (s\<lparr>mem := m'\<rparr>)) (FTRP (mem (s\<lparr>mem := m'\<rparr>)) b)
          = GET (mem (s\<lparr>mem := m'\<rparr>)) (HDRP b)"
  proof (cases "b \<in> ?X'")
    case False
    then have o: "b \<in> B" "b < lo \<or> hi \<le> b" "b \<noteq> hi" "b \<notin> X" using b by (auto simp: rep_set_def)
    note out = replaced_outside [OF st rp o(1,2)]
    have "balloc (mem s) b \<or> bprev (mem s) b \<and> GET (mem s) (FTRP (mem s) b) = GET (mem s) (HDRP b)"
      using co o(1,4) unfolding coalesced_def by blast
    then show ?thesis using out(2,4,5,6,7) o(3) by auto
  qed simp
qed

lemma coalesced_drop:
  assumes "coalesced s B X"
    and "\<And>x. x \<in> X \<Longrightarrow> x \<in> B \<Longrightarrow> x \<in> X' \<or> balloc (mem s) x
          \<or> bprev (mem s) x \<and> GET (mem s) (FTRP (mem s) x) = GET (mem s) (HDRP x)"
  shows "coalesced s B X'"
  using assms unfolding coalesced_def by blast

lemma heap_okD: "heap_ok s B L \<Longrightarrow> struct_ok s B" "heap_ok s B L \<Longrightarrow> coalesced s B {}"
  "heap_ok s B L \<Longrightarrow> lists_ok s B L {}"
  by (simp_all add: heap_ok_def)

text \<open>Inserting the one unlisted free block of a coalesced heap restores the invariant.\<close>

lemma insert_final:
  assumes st: "struct_ok s B" and co: "coalesced s B {}" and li: "lists_ok s B L {u}"
    and u: "u \<in> B" "\<not> balloc (mem s) u"
  shows "\<exists>m' L'. insert_to_free_list s u = Some (s\<lparr>mem := m'\<rparr>)
      \<and> heap_ok (s\<lparr>mem := m'\<rparr>) B L'
      \<and> keeps {} s B (s\<lparr>mem := m'\<rparr>) B
      \<and> (\<forall>c. c \<in> B \<or> c = mem_brk s \<longrightarrow> GET m' (HDRP c) = GET (mem s) (HDRP c))
      \<and> (\<forall>c\<in>B. GET m' (FTRP (mem s) c) = GET (mem s) (FTRP (mem s) c))
      \<and> (\<forall>k<10. set (L' k) = set (L k) \<union> (if k = bucket (bsize (mem s) u) then {u} else {}))"
proof -
  from insert_ok [OF st li u(1,2) _ refl]
  obtain m' xs ys where r: "insert_to_free_list s u = Some (s\<lparr>mem := m'\<rparr>)"
    "\<And>a. a \<notin> linkarea s B \<Longrightarrow> m' a = mem s a"
    "L (bucket (bsize (mem s) u)) = xs @ ys"
    "lists_ok (s\<lparr>mem := m'\<rparr>) B (L(bucket (bsize (mem s) u) := xs @ u # ys)) ({u} - {u})"
    by auto
  let ?L' = "L(bucket (bsize (mem s) u) := xs @ u # ys)"
  note lf = links_frame [OF st r(2)]
  have 1: "struct_ok (s\<lparr>mem := m'\<rparr>) B" using struct_ok_cong [OF st lf] by simp
  have 2: "coalesced (s\<lparr>mem := m'\<rparr>) B {}" using coalesced_cong [OF co lf(1,2)] by simp
  have 3: "lists_ok (s\<lparr>mem := m'\<rparr>) B ?L' {}" using r(4) by simp
  have 4: "keeps {} s B (s\<lparr>mem := m'\<rparr>) B" using keeps_links [OF st r(2)] .
  have 5: "\<forall>k<10. set (?L' k) = set (L k) \<union> (if k = bucket (bsize (mem s) u) then {u} else {})"
    using r(3) by auto
  show ?thesis
    using r(1) 1 2 3 4 5 lf(1,2) unfolding heap_ok_def by blast
qed

lemma bsize_PUT_mkhdr:
  assumes "8 dvd n" and "n < 2 ^ 32"
  shows "bsize (PUT m (HDRP b) (mkhdr n pa al)) b = n"
    and "balloc (PUT m (HDRP b) (mkhdr n pa al)) b = al"
    and "bprev (PUT m (HDRP b) (mkhdr n pa al)) b = pa"
proof -
  show "bsize (PUT m (HDRP b) (mkhdr n pa al)) b = n"
    unfolding bsize_def GET_SIZE_def GET_PUT_same using assms by (rule mkhdr_size)
  show "balloc (PUT m (HDRP b) (mkhdr n pa al)) b = al"
    unfolding balloc_def GET_ALLOC_def GET_PUT_same using assms(1) by (rule mkhdr_alloc)
  show "bprev (PUT m (HDRP b) (mkhdr n pa al)) b = pa"
    unfolding bprev_def GET_PREV_ALLOC_def GET_PUT_same using assms(1) by (rule mkhdr_prev)
qed

lemma acc_PUT_other:
  assumes "p + 4 \<le> b - 4 \<or> b \<le> p" and "4 \<le> b"
  shows "bsize (PUT m p v) b = bsize m b" and "balloc (PUT m p v) b = balloc m b"
    and "bprev (PUT m p v) b = bprev m b"
proof -
  have "GET (PUT m p v) (HDRP b) = GET m (HDRP b)"
    using assms by (intro GET_PUT_other) (auto simp: HDRP_def)
  then show "bsize (PUT m p v) b = bsize m b" "balloc (PUT m p v) b = balloc m b"
    "bprev (PUT m p v) b = bprev m b"
    by (rule acc_eq)+
qed

text \<open>
  Merging the free blocks between \<open>lo\<close> and \<open>hi\<close> into one: the header at \<open>lo\<close> and the
  footer before \<open>hi\<close> are rewritten.
\<close>

lemma merge_blocks:
  assumes st: "struct_ok s B" and co: "coalesced s B X" and li: "lists_ok s B L U"
    and lo: "lo \<in> B" "bprev (mem s) lo"
    and hi: "hi \<in> B \<or> hi = mem_brk s" "lo < hi" "balloc (mem s) hi" "\<not> bprev (mem s) hi"
    and old: "\<And>c. c \<in> B \<Longrightarrow> lo \<le> c \<Longrightarrow> c < hi \<Longrightarrow> \<not> balloc (mem s) c \<and> c \<in> U"
    and U: "\<And>c. c \<in> U \<Longrightarrow> lo \<le> c \<and> c < hi"
    and X: "\<And>c. c \<in> X \<Longrightarrow> lo \<le> c \<and> c \<le> hi"
    and m': "m' = PUT (PUT (mem s) (HDRP lo) (mkhdr (hi - lo) True False)) (hi - 8)
                    (mkhdr (hi - lo) True False)"
    and B': "B' = {b \<in> B. b < lo \<or> hi \<le> b} \<union> {lo}"
  shows "struct_ok (s\<lparr>mem := m'\<rparr>) B'" and "coalesced (s\<lparr>mem := m'\<rparr>) B' {}"
    and "lists_ok (s\<lparr>mem := m'\<rparr>) B' L {lo}" and "keeps {} s B (s\<lparr>mem := m'\<rparr>) B'"
    and "bsize m' lo = hi - lo" and "\<not> balloc m' lo" and "bprev m' lo"
    and "GET m' (FTRP m' lo) = GET m' (HDRP lo)"
    and "\<And>a. a < lo - 4 \<or> hi \<le> a \<Longrightarrow> m' a = mem s a"
proof -
  let ?m = "mem s"
  let ?h = "mkhdr (hi - lo) True False"
  note d = struct_okD [OF st lo(1)]
  note g = struct_ok_globals [OF st]
  have hib: "hi \<le> mem_brk s" "8 dvd hi"
    using hi(1) struct_okD(2,4) [OF st, of hi] struct_okD(3) [OF st, of hi] g(5) by auto
  have end_lo: "lo + bsize ?m lo \<le> hi"
  proof (cases "hi \<in> B")
    case True
    then show ?thesis using struct_ok_disj [OF st lo(1) True] hi(2) by auto
  next
    case False
    then show ?thesis using hi(1) d(4) by auto
  qed
  have sz: "24 \<le> hi - lo" "8 dvd (hi - lo)" "hi - lo < 2 ^ 32"
    using end_lo d(1,2,3) hib g(6,7) hi(2) by (auto simp: dvd_diff_nat)
  have lo4: "96 \<le> lo" using d(1) by simp
  have hl: "HDRP lo = lo - 4" by (simp add: HDRP_def)
  have o1: "hi - 8 + 4 \<le> lo - 4 \<or> lo \<le> hi - 8" "4 \<le> lo" using sz lo4 by arith+
  have a_lo: "bsize m' lo = hi - lo" "balloc m' lo = False" "bprev m' lo = True"
    using bsize_PUT_mkhdr [OF sz(2,3), of ?m lo True False]
    by (simp_all add: m' acc_PUT_other [OF o1])
  show "bsize m' lo = hi - lo" "\<not> balloc m' lo" "bprev m' lo" using a_lo by simp_all
  have ft: "FTRP m' lo = hi - 8" using a_lo(1) sz hi(2) by (simp add: FTRP_def bsize_def)
  have o3: "hi - 8 + 4 \<le> lo - 4 \<or> lo - 4 + 4 \<le> hi - 8" using sz lo4 by arith
  have gh: "GET m' (HDRP lo) = ?h" by (simp add: m' hl GET_PUT_other [OF o3] GET_PUT_same)
  have gf: "GET m' (hi - 8) = ?h" by (simp add: m' mem_simps)
  show "GET m' (FTRP m' lo) = GET m' (HDRP lo)" using ft gh gf by simp
  show fr: "m' a = ?m a" if "a < lo - 4 \<or> hi \<le> a" for a
  proof -
    have "a < hi - 8 \<or> hi - 8 + 4 \<le> a" "a < lo - 4 \<or> lo - 4 + 4 \<le> a"
      using that sz lo4 by arith+
    then show ?thesis by (simp add: m' hl PUT_other_byte)
  qed
  have o2: "hi - 8 + 4 \<le> hi - 4 \<or> hi \<le> hi - 8" "4 \<le> hi"
    "HDRP lo + 4 \<le> hi - 4 \<or> hi \<le> HDRP lo" using sz lo4 hl by arith+
  have a_hi: "bsize m' hi = bsize ?m hi" "balloc m' hi = balloc ?m hi" "bprev m' hi = bprev ?m hi"
    by (simp_all add: m' acc_PUT_other [OF o2(1,2)] acc_PUT_other [OF o2(3,2)])
  have rp: "replaced s B m' lo hi {lo}"
    unfolding replaced_def
    using lo hi fr a_hi a_lo d(2) sz ft gh gf by (simp add: GET_SIZE_def)
  have rs: "rep_set B lo hi {lo} = B'" by (simp add: rep_set_def B')
  show "struct_ok (s\<lparr>mem := m'\<rparr>) B'" using struct_replace [OF st rp] rs by simp
  have "lists_ok (s\<lparr>mem := m'\<rparr>) (rep_set B lo hi {lo}) L
      ({u \<in> U. u < lo \<or> hi \<le> u} \<union> {b \<in> {lo}. \<not> balloc m' b})"
    by (rule lists_ok_replace [OF st rp li _ refl]) (use old in blast)
  moreover have "\<forall>c\<in>U. lo \<le> c \<and> c < hi" using U by blast
  then have "{u \<in> U. u < lo \<or> hi \<le> u} \<union> {b \<in> {lo}. \<not> balloc m' b} = {lo}"
    using a_lo by auto
  ultimately show "lists_ok (s\<lparr>mem := m'\<rparr>) B' L {lo}" using rs by simp
  have "keeps {} s B (s\<lparr>mem := m'\<rparr>) (rep_set B lo hi {lo})"
    by (rule keeps_replace [OF st rp]) (use old a_lo in auto)
  then show "keeps {} s B (s\<lparr>mem := m'\<rparr>) B'" using rs by simp
  have c1: "coalesced (s\<lparr>mem := m'\<rparr>) B' ({x \<in> X. x < lo \<or> hi \<le> x} \<union> {lo} \<union> {hi})"
    using coalesced_replace [OF st rp co] rs by simp
  show "coalesced (s\<lparr>mem := m'\<rparr>) B' {}"
  proof (rule coalesced_drop [OF c1])
    fix x assume x: "x \<in> {x \<in> X. x < lo \<or> hi \<le> x} \<union> {lo} \<union> {hi}"
    then have "x = lo \<or> x = hi" using X [of x] by auto
    then show "x \<in> {} \<or> balloc (mem (s\<lparr>mem := m'\<rparr>)) x
          \<or> bprev (mem (s\<lparr>mem := m'\<rparr>)) x
            \<and> GET (mem (s\<lparr>mem := m'\<rparr>)) (FTRP (mem (s\<lparr>mem := m'\<rparr>)) x)
              = GET (mem (s\<lparr>mem := m'\<rparr>)) (HDRP x)"
      using a_lo a_hi hi(3) ft gh gf hi(2) by auto
  qed
qed

lemma pre_coalesceD:
  assumes "pre_coalesce s B L u"
  shows "struct_ok s B" and "coalesced s B {u, u + bsize (mem s) u}" and "lists_ok s B L {u}"
    and "u \<in> B" and "\<not> balloc (mem s) u"
    and "GET (mem s) (FTRP (mem s) u) = GET (mem s) (HDRP u)"
  using assms unfolding pre_coalesce_def by blast+

lemma NEXT_BLKP_bsize: "NEXT_BLKP m b = b + bsize m b"
  by (simp add: NEXT_BLKP_def bsize_def HDRP_def)

lemma FTRP_bsize: "FTRP m b = b + bsize m b - 8"
  by (simp add: FTRP_def bsize_def)

lemma ucast_size_of_nat: "(ucast (GET_SIZE m (HDRP b)) :: 64 word) = of_nat (bsize m b)"
  by (simp add: bsize_def)

lemma coalescedD:
  "coalesced s B X \<Longrightarrow> b \<in> B \<Longrightarrow> b \<notin> X \<Longrightarrow> \<not> balloc (mem s) b
    \<Longrightarrow> bprev (mem s) b \<and> GET (mem s) (FTRP (mem s) b) = GET (mem s) (HDRP b)"
  unfolding coalesced_def by blast

text \<open>The free successor of the block \<open>u\<close>.\<close>

lemma pre_coalesce_next:
  assumes pc: "pre_coalesce s B L u" and na: "\<not> balloc (mem s) (u + bsize (mem s) u)"
  shows "u + bsize (mem s) u \<in> B"
    and "u + bsize (mem s) u \<in> set (L (bucket (bsize (mem s) (u + bsize (mem s) u))))"
    and "\<not> bprev (mem s) (u + bsize (mem s) u)"
proof -
  note p = pre_coalesceD [OF pc]
  note d = struct_okD [OF p(1,4)]
  note g = struct_ok_globals [OF p(1)]
  show n: "u + bsize (mem s) u \<in> B" using d(5) g(12) na by auto
  show "u + bsize (mem s) u \<in> set (L (bucket (bsize (mem s) (u + bsize (mem s) u))))"
    using lists_ok_listed [OF p(3) n na] d(3) by simp
  show "\<not> bprev (mem s) (u + bsize (mem s) u)" using d(6) p(5) by simp
qed

text \<open>The free predecessor of the block \<open>u\<close>, found through its footer.\<close>

lemma pre_coalesce_prev:
  assumes pc: "pre_coalesce s B L u" and pa: "\<not> bprev (mem s) u"
  shows "PREV_BLKP (mem s) u \<in> B"
    and "PREV_BLKP (mem s) u + bsize (mem s) (PREV_BLKP (mem s) u) = u"
    and "\<not> balloc (mem s) (PREV_BLKP (mem s) u)"
    and "PREV_BLKP (mem s) u \<in> set (L (bucket (bsize (mem s) (PREV_BLKP (mem s) u))))"
    and "bprev (mem s) (PREV_BLKP (mem s) u)"
proof -
  note p = pre_coalesceD [OF pc]
  note d = struct_okD [OF p(1,4)]
  note g = struct_ok_globals [OF p(1)]
  have "u \<noteq> seg_free_listp s + 96" using g(13) pa by auto
  then obtain q where q: "q \<in> B" "q + bsize (mem s) q = u" using d(7) by auto
  note dq = struct_okD [OF p(1) q(1)]
  have fq: "\<not> balloc (mem s) q" using dq(6) q(2) pa by simp
  have "FTRP (mem s) q = u - 8" using q(2) by (simp add: FTRP_bsize)
  then have "unat (GET_SIZE (mem s) (u - 8)) = bsize (mem s) q"
    using dq(8) fq by (simp add: bsize_def)
  then have e: "PREV_BLKP (mem s) u = q" using q(2) by (simp add: PREV_BLKP_def)
  show "PREV_BLKP (mem s) u \<in> B" "\<not> balloc (mem s) (PREV_BLKP (mem s) u)"
    "PREV_BLKP (mem s) u + bsize (mem s) (PREV_BLKP (mem s) u) = u"
    using e q fq by simp_all
  have qu: "q \<noteq> u" "q \<noteq> u + bsize (mem s) u" using q(2) dq(3) by auto
  show "PREV_BLKP (mem s) u \<in> set (L (bucket (bsize (mem s) (PREV_BLKP (mem s) u))))"
    using lists_ok_listed [OF p(3) q(1) fq] qu e by simp
  show "bprev (mem s) (PREV_BLKP (mem s) u)"
    using coalescedD [OF p(2) q(1) _ fq] qu e by simp
qed

text \<open>Unlinking a listed block keeps the tiling and every header and footer.\<close>

lemma remove_step:
  assumes st: "struct_ok s B" and co: "coalesced s B X" and li: "lists_ok s B L U"
    and x: "x \<in> B" "\<not> balloc (mem s) x" "x \<notin> U"
  shows "\<exists>m1 L1. remove_from_free_list s x = s\<lparr>mem := m1\<rparr>
      \<and> struct_ok (s\<lparr>mem := m1\<rparr>) B \<and> coalesced (s\<lparr>mem := m1\<rparr>) B X
      \<and> lists_ok (s\<lparr>mem := m1\<rparr>) B L1 (insert x U)
      \<and> keeps {} s B (s\<lparr>mem := m1\<rparr>) B
      \<and> (\<forall>c. c \<in> B \<or> c = mem_brk s \<longrightarrow> GET m1 (HDRP c) = GET (mem s) (HDRP c))
      \<and> (\<forall>c\<in>B. GET m1 (FTRP (mem s) c) = GET (mem s) (FTRP (mem s) c))
      \<and> (\<forall>k<10. set (L1 k) = set (L k) - {x})"
proof -
  let ?i = "bucket (bsize (mem s) x)"
  have i: "?i < 10" by (rule bucket_less)
  have "x \<in> set (L ?i)" by (rule lists_ok_listed [OF li x])
  then obtain xs ys where sp: "L ?i = xs @ x # ys" by (auto simp add: in_set_conv_decomp)
  have "\<exists>m'. remove_from_free_list s x = s\<lparr>mem := m'\<rparr>
      \<and> (\<forall>a. a \<notin> linkarea s B \<longrightarrow> m' a = mem s a)
      \<and> lists_ok (s\<lparr>mem := m'\<rparr>) B (L(?i := xs @ ys)) (insert x U)
      \<and> GET_PREVP m' x = 0 \<and> GET_NEXTP m' x = 0"
    by (rule remove_ok [OF st li i sp])
  then obtain m1 where r: "remove_from_free_list s x = s\<lparr>mem := m1\<rparr>"
    "\<And>a. a \<notin> linkarea s B \<Longrightarrow> m1 a = mem s a"
    "lists_ok (s\<lparr>mem := m1\<rparr>) B (L(?i := xs @ ys)) (insert x U)"
    by blast
  let ?L1 = "L(?i := xs @ ys)"
  note lf = links_frame [OF st r(2)]
  have 1: "struct_ok (s\<lparr>mem := m1\<rparr>) B" using struct_ok_cong [OF st lf] by simp
  have 2: "coalesced (s\<lparr>mem := m1\<rparr>) B X" using coalesced_cong [OF co lf(1,2)] by simp
  have 4: "keeps {} s B (s\<lparr>mem := m1\<rparr>) B" using keeps_links [OF st r(2)] .
  have dist: "distinct (xs @ x # ys)" using lists_okD(3) [OF li i] sp by simp
  have 5: "set (?L1 k) = set (L k) - {x}" if k: "k < 10" for k
  proof (cases "k = ?i")
    case True
    then show ?thesis using dist sp by auto
  next
    case False
    have "x \<notin> set (L k)" using lists_okD(5) [OF li k, of x] False by auto
    then show ?thesis using False by simp
  qed
  show ?thesis using r(1,3) 1 2 4 lf(1,2) 5 by blast
qed

text \<open>The footer is written at the end the new header gives.\<close>

lemma merge_code:
  assumes "8 dvd n" and "n < 2 ^ 32"
  shows "PUT (PUT m (HDRP lo) (mkhdr n pa al)) (FTRP (PUT m (HDRP lo) (mkhdr n pa al)) lo)
            (GET (PUT m (HDRP lo) (mkhdr n pa al)) (HDRP lo))
         = PUT (PUT m (HDRP lo) (mkhdr n pa al)) (lo + n - 8) (mkhdr n pa al)"
  by (simp add: FTRP_bsize bsize_PUT_mkhdr(1) [OF assms] GET_PUT_same)

text \<open>
  Merging the blocks of \<open>[lo, hi)\<close>, none of which is in a list, into one block that is then
  inserted into its list.
\<close>

lemma merge_insert:
  assumes st: "struct_ok s B" and co: "coalesced s B X" and li: "lists_ok s B L U"
    and lo: "lo \<in> B" "bprev (mem s) lo"
    and hi: "hi \<in> B \<or> hi = mem_brk s" "lo < hi" "balloc (mem s) hi" "\<not> bprev (mem s) hi"
    and old: "\<And>c. c \<in> B \<Longrightarrow> lo \<le> c \<Longrightarrow> c < hi \<Longrightarrow> \<not> balloc (mem s) c \<and> c \<in> U"
    and U: "\<And>c. c \<in> U \<Longrightarrow> lo \<le> c \<and> c < hi"
    and X: "\<And>c. c \<in> X \<Longrightarrow> lo \<le> c \<and> c \<le> hi"
    and m2: "m2 = PUT (mem s) (HDRP lo) (mkhdr (hi - lo) True False)"
    and B': "B' = {b \<in> B. b < lo \<or> hi \<le> b} \<union> {lo}"
  shows "\<exists>m' L'. insert_to_free_list (s\<lparr>mem := PUT m2 (FTRP m2 lo) (GET m2 (HDRP lo))\<rparr>) lo
          = Some (s\<lparr>mem := m'\<rparr>)
      \<and> heap_ok (s\<lparr>mem := m'\<rparr>) B' L' \<and> keeps {} s B (s\<lparr>mem := m'\<rparr>) B'
      \<and> bsize m' lo = hi - lo \<and> \<not> balloc m' lo \<and> bprev m' lo
      \<and> GET m' (HDRP lo) = mkhdr (hi - lo) True False
      \<and> GET m' (FTRP m' lo) = GET m' (HDRP lo)
      \<and> (\<forall>k<10. set (L' k) = set (L k) \<union> (if k = bucket (hi - lo) then {lo} else {}))"
proof -
  let ?h = "mkhdr (hi - lo) True False"
  let ?m3 = "PUT (PUT (mem s) (HDRP lo) ?h) (hi - 8) ?h"
  let ?s3 = "s\<lparr>mem := ?m3\<rparr>"
  note g = struct_ok_globals [OF st]
  note d = struct_okD [OF st lo(1)]
  have hib: "hi \<le> mem_brk s" "8 dvd hi"
    using hi(1) struct_okD(2,4) [OF st, of hi] struct_okD(3) [OF st, of hi] g(5) by auto
  have n: "8 dvd hi - lo" "hi - lo < 2 ^ 32"
    using hib d(1,2) g(6,7) hi(2) by (auto intro: dvd_diff_nat)
  have e: "PUT m2 (FTRP m2 lo) (GET m2 (HDRP lo)) = ?m3"
    unfolding m2 using merge_code [OF n, of "mem s" lo True False] hi(2) by simp
  note mbr = merge_blocks [OF st co li lo hi old U X refl B']
  have mb: "struct_ok ?s3 B'" "coalesced ?s3 B' {}" "lists_ok ?s3 B' L {lo}" "keeps {} s B ?s3 B'"
    "bsize ?m3 lo = hi - lo" "\<not> balloc ?m3 lo" "bprev ?m3 lo"
    "GET ?m3 (FTRP ?m3 lo) = GET ?m3 (HDRP lo)"
    by (rule mbr(1), assumption+, rule mbr(2), assumption+, rule mbr(3), assumption+,
        rule mbr(4), assumption+, rule mbr(5), assumption+, rule mbr(6), assumption+,
        rule mbr(7), assumption+, rule mbr(8), assumption+)
  have lo': "lo \<in> B'" using B' by simp
  have "\<exists>m' L'. insert_to_free_list ?s3 lo = Some (?s3\<lparr>mem := m'\<rparr>)
      \<and> heap_ok (?s3\<lparr>mem := m'\<rparr>) B' L'
      \<and> keeps {} ?s3 B' (?s3\<lparr>mem := m'\<rparr>) B'
      \<and> (\<forall>c. c \<in> B' \<or> c = mem_brk ?s3 \<longrightarrow> GET m' (HDRP c) = GET (mem ?s3) (HDRP c))
      \<and> (\<forall>c\<in>B'. GET m' (FTRP (mem ?s3) c) = GET (mem ?s3) (FTRP (mem ?s3) c))
      \<and> (\<forall>k<10. set (L' k) = set (L k) \<union> (if k = bucket (bsize (mem ?s3) lo) then {lo} else {}))"
    using mb(6) by (intro insert_final [OF mb(1,2,3) lo']) simp
  then obtain m' L' where r: "insert_to_free_list ?s3 lo = Some (s\<lparr>mem := m'\<rparr>)"
    "heap_ok (s\<lparr>mem := m'\<rparr>) B' L'"
    "keeps {} ?s3 B' (s\<lparr>mem := m'\<rparr>) B'"
    "\<And>c. c \<in> B' \<Longrightarrow> GET m' (HDRP c) = GET ?m3 (HDRP c)"
    "\<And>c. c \<in> B' \<Longrightarrow> GET m' (FTRP ?m3 c) = GET ?m3 (FTRP ?m3 c)"
    "\<And>k. k < 10 \<Longrightarrow> set (L' k) = set (L k) \<union> (if k = bucket (bsize ?m3 lo) then {lo} else {})"
    by auto
  note a = acc_eq [OF r(4) [OF lo']]
  have k: "keeps {} s B (s\<lparr>mem := m'\<rparr>) B'"
    using keeps_trans [OF mb(4) r(3)] by simp
  have hd3: "GET ?m3 (HDRP lo) = ?h"
  proof -
    have "lo + bsize (mem s) lo \<le> hi"
    proof (cases "hi \<in> B")
      case True
      then show ?thesis using struct_ok_disj [OF st lo(1) True] hi(2) by auto
    next
      case False
      then show ?thesis using hi(1) d(4) by simp
    qed
    then have sep: "hi - 8 + 4 \<le> HDRP lo \<or> HDRP lo + 4 \<le> hi - 8"
      using d(1,3) unfolding HDRP_def by arith
    show ?thesis by (simp add: GET_PUT_other [OF sep] GET_PUT_same)
  qed
  have f: "bsize m' lo = hi - lo" "\<not> balloc m' lo" "bprev m' lo"
    "GET m' (FTRP m' lo) = GET m' (HDRP lo)" "GET m' (HDRP lo) = ?h"
    using a mb(5-8) r(4,5) [OF lo'] hd3 by simp_all
  have l: "\<forall>k<10. set (L' k) = set (L k) \<union> (if k = bucket (hi - lo) then {lo} else {})"
    using r(6) mb(5) by simp
  have i: "insert_to_free_list (s\<lparr>mem := PUT m2 (FTRP m2 lo) (GET m2 (HDRP lo))\<rparr>) lo
          = Some (s\<lparr>mem := m'\<rparr>)"
    using r(1) e by simp
  show ?thesis
    by (intro exI [of _ m'] exI [of _ L'] conjI) (fact i r(2) k f l)+
qed

lemma block_between:
  assumes st: "struct_ok s B" and b: "b \<in> B" and c: "c \<in> B"
    and r: "b \<le> c" "c < b + bsize (mem s) b"
  shows "c = b"
proof (rule ccontr)
  assume "c \<noteq> b"
  then have "b + bsize (mem s) b \<le> c \<or> c + bsize (mem s) c \<le> b"
    using struct_ok_disj [OF st b c] by auto
  then show False using r struct_okD(3) [OF st c] by arith
qed

lemma pack_bprev:
  "(ucast (PACK (of_nat n :: 64 word) (ucast (GET_PREV_ALLOC m (HDRP b)))) :: 32 word)
     = mkhdr n (bprev m b) False"
  by (simp add: GET_PREV_ALLOC_def bprev_def pack_prev)

text \<open>The four branches of \<^verbatim>\<open>coalesce\<close>, with the arithmetic of the header words done.\<close>

lemma coalesce_branch1:
  assumes "bprev (mem s) u" and "balloc (mem s) (u + bsize (mem s) u)"
  shows "coalesce s u = do { s' \<leftarrow> insert_to_free_list s u; Some (u, s') }"
proof -
  have pa: "GET_PREV_ALLOC (mem s) (HDRP u) \<noteq> 0" using assms(1) unfolding bprev_def .
  have na: "GET_ALLOC (mem s) (HDRP (NEXT_BLKP (mem s) u)) \<noteq> 0"
    using assms(2) unfolding balloc_def NEXT_BLKP_bsize .
  show ?thesis
    unfolding coalesce_def by (simp only: Let_def pa na simp_thms if_True)
qed

lemma coalesce_branch2:
  assumes "bprev (mem s) u" and "\<not> balloc (mem s) (u + bsize (mem s) u)"
    and r: "remove_from_free_list s (u + bsize (mem s) u) = s\<lparr>mem := m1\<rparr>"
    and a: "bsize m1 u = bsize (mem s) u"
    and m2: "m2 = PUT m1 (HDRP u) (mkhdr (bsize (mem s) u + bsize m1 (u + bsize (mem s) u)) True False)"
  shows "coalesce s u = do {
      s' \<leftarrow> insert_to_free_list (s\<lparr>mem := PUT m2 (FTRP m2 u) (GET m2 (HDRP u))\<rparr>) u;
      Some (u, s') }"
proof -
  have pa: "GET_PREV_ALLOC (mem s) (HDRP u) \<noteq> 0" using assms(1) unfolding bprev_def .
  have na: "GET_ALLOC (mem s) (HDRP (u + bsize (mem s) u)) = 0"
    using assms(2) unfolding balloc_def by simp
  have m: "mem (s\<lparr>mem := m1\<rparr>) = m1" "s\<lparr>mem := m1, mem := x\<rparr> = s\<lparr>mem := x\<rparr>" for x by simp_all
  show ?thesis
    unfolding coalesce_def m2
    by (simp only: Let_def pa na simp_thms if_True if_False NEXT_BLKP_bsize r m a
        ucast_size_of_nat of_nat_add [symmetric] pack_2)
qed

lemma coalesce_branch3:
  assumes "\<not> bprev (mem s) u" and "balloc (mem s) (u + bsize (mem s) u)"
    and r: "remove_from_free_list s (PREV_BLKP (mem s) u) = s\<lparr>mem := m1\<rparr>"
    and m2: "m2 = PUT m1 (HDRP (PREV_BLKP (mem s) u))
       (mkhdr (bsize (mem s) u + bsize m1 (PREV_BLKP (mem s) u)) (bprev m1 (PREV_BLKP (mem s) u)) False)"
  shows "coalesce s u = do {
      s' \<leftarrow> insert_to_free_list (s\<lparr>mem := PUT m2 (FTRP m2 (PREV_BLKP (mem s) u))
              (GET m2 (HDRP (PREV_BLKP (mem s) u)))\<rparr>) (PREV_BLKP (mem s) u);
      Some (PREV_BLKP (mem s) u, s') }"
proof -
  have pa: "GET_PREV_ALLOC (mem s) (HDRP u) = 0" using assms(1) unfolding bprev_def by simp
  have na: "GET_ALLOC (mem s) (HDRP (NEXT_BLKP (mem s) u)) \<noteq> 0"
    using assms(2) unfolding balloc_def NEXT_BLKP_bsize .
  have m: "mem (s\<lparr>mem := m1\<rparr>) = m1" "s\<lparr>mem := m1, mem := x\<rparr> = s\<lparr>mem := x\<rparr>" for x by simp_all
  show ?thesis
    unfolding coalesce_def m2
    by (simp only: Let_def pa na simp_thms if_True if_False r m
        ucast_size_of_nat of_nat_add [symmetric] pack_bprev)
qed

lemma coalesce_branch4:
  assumes "\<not> bprev (mem s) u" and "\<not> balloc (mem s) (u + bsize (mem s) u)"
    and r: "remove_from_free_list s (PREV_BLKP (mem s) u) = s\<lparr>mem := m1\<rparr>"
       "remove_from_free_list (s\<lparr>mem := m1\<rparr>) (u + bsize (mem s) u) = s\<lparr>mem := m2\<rparr>"
    and m3: "m3 = PUT m2 (HDRP (PREV_BLKP (mem s) u))
       (mkhdr (bsize (mem s) u + (bsize m2 (PREV_BLKP (mem s) u) + bsize m2 (u + bsize (mem s) u)))
           (bprev m2 (PREV_BLKP (mem s) u)) False)"
  shows "coalesce s u = do {
      s' \<leftarrow> insert_to_free_list (s\<lparr>mem := PUT m3 (FTRP m3 (PREV_BLKP (mem s) u))
              (GET m3 (HDRP (PREV_BLKP (mem s) u)))\<rparr>) (PREV_BLKP (mem s) u);
      Some (PREV_BLKP (mem s) u, s') }"
proof -
  have pa: "GET_PREV_ALLOC (mem s) (HDRP u) = 0" using assms(1) unfolding bprev_def by simp
  have na: "GET_ALLOC (mem s) (HDRP (u + bsize (mem s) u)) = 0"
    using assms(2) unfolding balloc_def by simp
  have m: "mem (s\<lparr>mem := x\<rparr>) = x" "s\<lparr>mem := y, mem := x\<rparr> = s\<lparr>mem := x\<rparr>" for x y by simp_all
  show ?thesis
    unfolding coalesce_def m3
    by (simp only: Let_def pa na simp_thms if_True if_False NEXT_BLKP_bsize r m
        ucast_size_of_nat of_nat_add [symmetric] pack_bprev)
qed

text \<open>Case 1 of \<^verbatim>\<open>coalesce\<close>: both neighbours are allocated.\<close>

lemma coalesce_case1:
  assumes pc: "pre_coalesce s B L u"
    and pa: "bprev (mem s) u" and na: "balloc (mem s) (u + bsize (mem s) u)"
  shows "\<exists>m' L'. coalesce s u = Some (u, s\<lparr>mem := m'\<rparr>)
      \<and> heap_ok (s\<lparr>mem := m'\<rparr>) B L' \<and> keeps {} s B (s\<lparr>mem := m'\<rparr>) B
      \<and> GET m' (HDRP u) = GET (mem s) (HDRP u)
      \<and> GET m' (FTRP m' u) = GET (mem s) (FTRP (mem s) u)
      \<and> (\<forall>k<10. set (L' k) = set (L k) \<union> (if k = bucket (bsize (mem s) u) then {u} else {}))"
proof -
  note p = pre_coalesceD [OF pc]
  have co: "coalesced s B {}"
    using p(2) pa na p(6) by (intro coalesced_drop [OF p(2)]) auto
  have c: "coalesce s u = do { s' \<leftarrow> insert_to_free_list s u; Some (u, s') }"
    by (rule coalesce_branch1 [OF pa na])
  obtain m' L' where r: "insert_to_free_list s u = Some (s\<lparr>mem := m'\<rparr>)"
    "heap_ok (s\<lparr>mem := m'\<rparr>) B L'" "keeps {} s B (s\<lparr>mem := m'\<rparr>) B"
    "\<And>c. c \<in> B \<Longrightarrow> GET m' (HDRP c) = GET (mem s) (HDRP c)"
    "\<And>c. c \<in> B \<Longrightarrow> GET m' (FTRP (mem s) c) = GET (mem s) (FTRP (mem s) c)"
    "\<forall>k<10. set (L' k) = set (L k) \<union> (if k = bucket (bsize (mem s) u) then {u} else {})"
    using insert_final [OF p(1) co p(3,4,5)] by auto
  have f: "GET m' (FTRP m' u) = GET (mem s) (FTRP (mem s) u)"
    using acc_eq(4) [OF r(4) [OF p(4)]] r(5) [OF p(4)] by simp
  have c': "coalesce s u = Some (u, s\<lparr>mem := m'\<rparr>)" using c r(1) by simp
  show ?thesis
    by (intro exI [of _ m'] exI [of _ L'] conjI) (fact c' r(2,3) r(4) [OF p(4)] f r(6))+
qed

text \<open>Case 2 of \<^verbatim>\<open>coalesce\<close>: only the next block is free.\<close>

lemma coalesce_case2:
  assumes pc: "pre_coalesce s B L u"
    and pa: "bprev (mem s) u" and na: "\<not> balloc (mem s) (u + bsize (mem s) u)"
    and t: "t = bsize (mem s) u + bsize (mem s) (u + bsize (mem s) u)"
  shows "\<exists>m' L'. coalesce s u = Some (u, s\<lparr>mem := m'\<rparr>)
      \<and> heap_ok (s\<lparr>mem := m'\<rparr>) (B - {u + bsize (mem s) u}) L'
      \<and> keeps {} s B (s\<lparr>mem := m'\<rparr>) (B - {u + bsize (mem s) u})
      \<and> bsize m' u = t \<and> \<not> balloc m' u \<and> bprev m' u
      \<and> GET m' (HDRP u) = mkhdr t True False
      \<and> GET m' (FTRP m' u) = GET m' (HDRP u)
      \<and> (\<forall>k<10. set (L' k) = set (L k) - {u + bsize (mem s) u}
                                \<union> (if k = bucket t then {u} else {}))"
proof -
  let ?m = "mem s"
  let ?n = "u + bsize ?m u"
  let ?hi = "u + t"
  note p = pre_coalesceD [OF pc]
  note nx = pre_coalesce_next [OF pc na]
  note du = struct_okD [OF p(1,4)]
  note dn = struct_okD [OF p(1) nx(1)]
  have nU: "?n \<notin> {u}" using du(3) by simp
  obtain m1 L1 where r: "remove_from_free_list s ?n = s\<lparr>mem := m1\<rparr>"
    "struct_ok (s\<lparr>mem := m1\<rparr>) B" "coalesced (s\<lparr>mem := m1\<rparr>) B {u, ?n}"
    "lists_ok (s\<lparr>mem := m1\<rparr>) B L1 (insert ?n {u})"
    "keeps {} s B (s\<lparr>mem := m1\<rparr>) B"
    "\<And>c. c \<in> B \<or> c = mem_brk s \<Longrightarrow> GET m1 (HDRP c) = GET ?m (HDRP c)"
    "\<forall>k<10. set (L1 k) = set (L k) - {?n}"
    using remove_step [OF p(1,2,3) nx(1) na nU] by auto
  let ?s1 = "s\<lparr>mem := m1\<rparr>"
  note au = acc_eq [OF r(6) [of u]]
  note an = acc_eq [OF r(6) [of ?n]]
  have hiB: "?hi \<in> B \<or> ?hi = mem_brk s" using dn(5) t by (auto simp add: add.assoc)
  note ah = acc_eq [OF r(6) [of ?hi]]
  have hi_al: "balloc ?m ?hi"
  proof (cases "?hi \<in> B")
    case True
    have "?hi \<notin> {u, ?n}" using du(3) dn(3) t by simp
    then show ?thesis using coalescedD [OF p(2) True] dn(6) na t by (auto simp add: add.assoc)
  next
    case False
    then show ?thesis using hiB struct_ok_globals(12) [OF p(1)] by simp
  qed
  have hi_pa: "\<not> bprev ?m ?hi" using dn(6) na t by (simp add: add.assoc)
  have old: "\<not> balloc m1 c \<and> c \<in> insert ?n {u}" if c: "c \<in> B" "u \<le> c" "c < ?hi" for c
  proof (cases "c < ?n")
    case True
    then have "c = u" using block_between [OF p(1,4) c(1,2)] by simp
    then show ?thesis using au p(4,5) by simp
  next
    case False
    then have "c = ?n" using block_between [OF p(1) nx(1) c(1)] c(3) t by simp
    then show ?thesis using an nx(1) na by simp
  qed
  have B': "B - {?n} = {b \<in> B. b < u \<or> ?hi \<le> b} \<union> {u}"
  proof (intro set_eqI iffI)
    fix c assume c: "c \<in> B - {?n}"
    show "c \<in> {b \<in> B. b < u \<or> ?hi \<le> b} \<union> {u}"
    proof (rule ccontr)
      assume a: "c \<notin> {b \<in> B. b < u \<or> ?hi \<le> b} \<union> {u}"
      then have "c \<in> insert ?n {u}" using old [of c] c by auto
      then show False using a c by auto
    qed
  next
    fix c assume "c \<in> {b \<in> B. b < u \<or> ?hi \<le> b} \<union> {u}"
    then show "c \<in> B - {?n}" using p(4) du(3) dn(3) t by auto
  qed
  define m2 where "m2 = PUT m1 (HDRP u) (mkhdr (bsize ?m u + bsize m1 ?n) True False)"
  have c: "coalesce s u = do {
      s' \<leftarrow> insert_to_free_list (s\<lparr>mem := PUT m2 (FTRP m2 u) (GET m2 (HDRP u))\<rparr>) u;
      Some (u, s') }"
    using au(1) p(4) by (intro coalesce_branch2 [OF pa na r(1) _ m2_def]) simp
  have "\<exists>m' L'. insert_to_free_list (?s1\<lparr>mem := PUT m2 (FTRP m2 u) (GET m2 (HDRP u))\<rparr>) u
          = Some (?s1\<lparr>mem := m'\<rparr>)
      \<and> heap_ok (?s1\<lparr>mem := m'\<rparr>) (B - {?n}) L'
      \<and> keeps {} ?s1 B (?s1\<lparr>mem := m'\<rparr>) (B - {?n})
      \<and> bsize m' u = ?hi - u \<and> \<not> balloc m' u \<and> bprev m' u
      \<and> GET m' (HDRP u) = mkhdr (?hi - u) True False
      \<and> GET m' (FTRP m' u) = GET m' (HDRP u)
      \<and> (\<forall>k<10. set (L' k) = set (L1 k) \<union> (if k = bucket (?hi - u) then {u} else {}))"
  proof (rule merge_insert [OF r(2,3,4) p(4)])
    show "bprev (mem ?s1) u" using au(3) p(4) pa by simp
    show "?hi \<in> B \<or> ?hi = mem_brk ?s1" using hiB by simp
    show "u < ?hi" using du(3) t by simp
    show "balloc (mem ?s1) ?hi" using ah(2) hiB hi_al by auto
    show "\<not> bprev (mem ?s1) ?hi" using ah(3) hiB hi_pa by auto
    show "\<not> balloc (mem ?s1) c \<and> c \<in> insert ?n {u}" if "c \<in> B" "u \<le> c" "c < ?hi" for c
      using old [OF that] by simp
    show "u \<le> c \<and> c < ?hi" if "c \<in> insert ?n {u}" for c
      using that du(3) dn(3) t by auto
    show "u \<le> c \<and> c \<le> ?hi" if "c \<in> {u, ?n}" for c
      using that du(3) dn(3) t by auto
    show "m2 = PUT (mem ?s1) (HDRP u) (mkhdr (?hi - u) True False)"
      unfolding m2_def using an(1) nx(1) t by simp
    show "B - {?n} = {b \<in> B. b < u \<or> ?hi \<le> b} \<union> {u}" by (rule B')
  qed
  then obtain m' L' where i:
    "insert_to_free_list (?s1\<lparr>mem := PUT m2 (FTRP m2 u) (GET m2 (HDRP u))\<rparr>) u
          = Some (s\<lparr>mem := m'\<rparr>)"
    "heap_ok (s\<lparr>mem := m'\<rparr>) (B - {?n}) L'"
    "keeps {} ?s1 B (s\<lparr>mem := m'\<rparr>) (B - {?n})"
    "bsize m' u = t" "\<not> balloc m' u" "bprev m' u"
    "GET m' (HDRP u) = mkhdr t True False"
    "GET m' (FTRP m' u) = GET m' (HDRP u)"
    "\<forall>k<10. set (L' k) = set (L1 k) \<union> (if k = bucket t then {u} else {})"
    by auto
  have c': "coalesce s u = Some (u, s\<lparr>mem := m'\<rparr>)" using c i(1) by simp
  have k: "keeps {} s B (s\<lparr>mem := m'\<rparr>) (B - {?n})" using keeps_trans [OF r(5) i(3)] by simp
  have l: "\<forall>k<10. set (L' k) = set (L k) - {?n} \<union> (if k = bucket t then {u} else {})"
    using i(9) r(7) by simp
  show ?thesis
    by (intro exI [of _ m'] exI [of _ L'] conjI) (fact c' i(2) k i(4-8) l)+
qed

text \<open>Case 3 of \<^verbatim>\<open>coalesce\<close>: only the previous block is free.\<close>

lemma coalesce_case3:
  assumes pc: "pre_coalesce s B L u"
    and pa: "\<not> bprev (mem s) u" and na: "balloc (mem s) (u + bsize (mem s) u)"
    and q: "q = PREV_BLKP (mem s) u"
    and t: "t = bsize (mem s) q + bsize (mem s) u"
  shows "\<exists>m' L'. coalesce s u = Some (q, s\<lparr>mem := m'\<rparr>)
      \<and> heap_ok (s\<lparr>mem := m'\<rparr>) (B - {u}) L'
      \<and> keeps {} s B (s\<lparr>mem := m'\<rparr>) (B - {u})
      \<and> bsize m' q = t \<and> \<not> balloc m' q \<and> bprev m' q
      \<and> GET m' (HDRP q) = mkhdr t True False
      \<and> GET m' (FTRP m' q) = GET m' (HDRP q)
      \<and> (\<forall>k<10. set (L' k) = set (L k) - {q} \<union> (if k = bucket t then {q} else {}))"
proof -
  let ?m = "mem s"
  let ?hi = "u + bsize ?m u"
  note p = pre_coalesceD [OF pc]
  note pv = pre_coalesce_prev [OF pc pa, folded q]
  note du = struct_okD [OF p(1,4)]
  note dq = struct_okD [OF p(1) pv(1)]
  have qU: "q \<notin> {u}" using dq(3) pv(2) by auto
  obtain m1 L1 where r: "remove_from_free_list s q = s\<lparr>mem := m1\<rparr>"
    "struct_ok (s\<lparr>mem := m1\<rparr>) B" "coalesced (s\<lparr>mem := m1\<rparr>) B {u, ?hi}"
    "lists_ok (s\<lparr>mem := m1\<rparr>) B L1 (insert q {u})"
    "keeps {} s B (s\<lparr>mem := m1\<rparr>) B"
    "\<And>c. c \<in> B \<or> c = mem_brk s \<Longrightarrow> GET m1 (HDRP c) = GET ?m (HDRP c)"
    "\<forall>k<10. set (L1 k) = set (L k) - {q}"
    using remove_step [OF p(1,2,3) pv(1) pv(3) qU] by auto
  let ?s1 = "s\<lparr>mem := m1\<rparr>"
  note au = acc_eq [OF r(6) [of u]]
  note aq = acc_eq [OF r(6) [of q]]
  note ah = acc_eq [OF r(6) [of ?hi]]
  have hiB: "?hi \<in> B \<or> ?hi = mem_brk s" using du(5) by auto
  have hi_pa: "\<not> bprev ?m ?hi" using du(6) p(5) by simp
  have len: "?hi - q = t" using pv(2) t by arith
  have old: "\<not> balloc m1 c \<and> c \<in> insert q {u}" if c: "c \<in> B" "q \<le> c" "c < ?hi" for c
  proof (cases "c < u")
    case True
    then have "c = q" using block_between [OF p(1) pv(1) c(1,2)] pv(2) by simp
    then show ?thesis using aq pv(1,3) by simp
  next
    case False
    then have "c = u" using block_between [OF p(1,4) c(1)] c(3) by simp
    then show ?thesis using au p(4,5) by simp
  qed
  have B': "B - {u} = {b \<in> B. b < q \<or> ?hi \<le> b} \<union> {q}"
  proof (intro set_eqI iffI)
    fix c assume c: "c \<in> B - {u}"
    show "c \<in> {b \<in> B. b < q \<or> ?hi \<le> b} \<union> {q}"
    proof (rule ccontr)
      assume a: "c \<notin> {b \<in> B. b < q \<or> ?hi \<le> b} \<union> {q}"
      then have "c \<in> insert q {u}" using old [of c] c by auto
      then show False using a c by auto
    qed
  next
    fix c assume "c \<in> {b \<in> B. b < q \<or> ?hi \<le> b} \<union> {q}"
    then show "c \<in> B - {u}" using pv(1,2) du(3) dq(3) by auto
  qed
  define m2 where "m2 = PUT m1 (HDRP q) (mkhdr (bsize ?m u + bsize m1 q) (bprev m1 q) False)"
  have c: "coalesce s u = do {
      s' \<leftarrow> insert_to_free_list (s\<lparr>mem := PUT m2 (FTRP m2 q) (GET m2 (HDRP q))\<rparr>) q;
      Some (q, s') }"
    unfolding q by (rule coalesce_branch3 [OF pa na r(1) [unfolded q] m2_def [unfolded q]])
  have "\<exists>m' L'. insert_to_free_list (?s1\<lparr>mem := PUT m2 (FTRP m2 q) (GET m2 (HDRP q))\<rparr>) q
          = Some (?s1\<lparr>mem := m'\<rparr>)
      \<and> heap_ok (?s1\<lparr>mem := m'\<rparr>) (B - {u}) L'
      \<and> keeps {} ?s1 B (?s1\<lparr>mem := m'\<rparr>) (B - {u})
      \<and> bsize m' q = ?hi - q \<and> \<not> balloc m' q \<and> bprev m' q
      \<and> GET m' (HDRP q) = mkhdr (?hi - q) True False
      \<and> GET m' (FTRP m' q) = GET m' (HDRP q)
      \<and> (\<forall>k<10. set (L' k) = set (L1 k) \<union> (if k = bucket (?hi - q) then {q} else {}))"
  proof (rule merge_insert [OF r(2,3,4) pv(1)])
    show "bprev (mem ?s1) q" using aq(3) pv(1,5) by simp
    show "?hi \<in> B \<or> ?hi = mem_brk ?s1" using hiB by simp
    show "q < ?hi" using du(3) pv(2) by arith
    show "balloc (mem ?s1) ?hi" using ah(2) hiB na by auto
    show "\<not> bprev (mem ?s1) ?hi" using ah(3) hiB hi_pa by auto
    show "\<not> balloc (mem ?s1) c \<and> c \<in> insert q {u}" if "c \<in> B" "q \<le> c" "c < ?hi" for c
      using old [OF that] by simp
    show "q \<le> c \<and> c < ?hi" if "c \<in> insert q {u}" for c
      using that du(3) dq(3) pv(2) by auto
    show "q \<le> c \<and> c \<le> ?hi" if "c \<in> {u, ?hi}" for c
      using that du(3) dq(3) pv(2) by auto
    show "m2 = PUT (mem ?s1) (HDRP q) (mkhdr (?hi - q) True False)"
      unfolding m2_def len using aq(1,3) pv(1,5) t by (simp add: add.commute)
    show "B - {u} = {b \<in> B. b < q \<or> ?hi \<le> b} \<union> {q}" by (rule B')
  qed
  then obtain m' L' where i:
    "insert_to_free_list (?s1\<lparr>mem := PUT m2 (FTRP m2 q) (GET m2 (HDRP q))\<rparr>) q
          = Some (s\<lparr>mem := m'\<rparr>)"
    "heap_ok (s\<lparr>mem := m'\<rparr>) (B - {u}) L'"
    "keeps {} ?s1 B (s\<lparr>mem := m'\<rparr>) (B - {u})"
    "bsize m' q = t" "\<not> balloc m' q" "bprev m' q"
    "GET m' (HDRP q) = mkhdr t True False"
    "GET m' (FTRP m' q) = GET m' (HDRP q)"
    "\<forall>k<10. set (L' k) = set (L1 k) \<union> (if k = bucket t then {q} else {})"
    unfolding len by auto
  have c': "coalesce s u = Some (q, s\<lparr>mem := m'\<rparr>)" using c i(1) by simp
  have k: "keeps {} s B (s\<lparr>mem := m'\<rparr>) (B - {u})" using keeps_trans [OF r(5) i(3)] by simp
  have l: "\<forall>k<10. set (L' k) = set (L k) - {q} \<union> (if k = bucket t then {q} else {})"
    using i(9) r(7) by simp
  show ?thesis
    by (intro exI [of _ m'] exI [of _ L'] conjI) (fact c' i(2) k i(4-8) l)+
qed

text \<open>Case 4 of \<^verbatim>\<open>coalesce\<close>: both neighbours are free.\<close>

lemma coalesce_case4:
  assumes pc: "pre_coalesce s B L u"
    and pa: "\<not> bprev (mem s) u" and na: "\<not> balloc (mem s) (u + bsize (mem s) u)"
    and q: "q = PREV_BLKP (mem s) u"
    and n: "n = u + bsize (mem s) u"
    and t: "t = bsize (mem s) q + bsize (mem s) u + bsize (mem s) n"
  shows "\<exists>m' L'. coalesce s u = Some (q, s\<lparr>mem := m'\<rparr>)
      \<and> heap_ok (s\<lparr>mem := m'\<rparr>) (B - {u, n}) L'
      \<and> keeps {} s B (s\<lparr>mem := m'\<rparr>) (B - {u, n})
      \<and> bsize m' q = t \<and> \<not> balloc m' q \<and> bprev m' q
      \<and> GET m' (HDRP q) = mkhdr t True False
      \<and> GET m' (FTRP m' q) = GET m' (HDRP q)
      \<and> (\<forall>k<10. set (L' k) = set (L k) - {q, n} \<union> (if k = bucket t then {q} else {}))"
proof -
  let ?m = "mem s"
  let ?hi = "n + bsize ?m n"
  note p = pre_coalesceD [OF pc]
  note pv = pre_coalesce_prev [OF pc pa, folded q]
  note nx = pre_coalesce_next [OF pc na, folded n]
  have na': "\<not> balloc ?m n" using na n by simp
  note du = struct_okD [OF p(1,4)]
  note dq = struct_okD [OF p(1) pv(1)]
  note dn = struct_okD [OF p(1) nx(1)]
  have qU: "q \<notin> {u}" using dq(3) pv(2) by auto
  obtain m1 L1 where r: "remove_from_free_list s q = s\<lparr>mem := m1\<rparr>"
    "struct_ok (s\<lparr>mem := m1\<rparr>) B" "coalesced (s\<lparr>mem := m1\<rparr>) B {u, n}"
    "lists_ok (s\<lparr>mem := m1\<rparr>) B L1 (insert q {u})"
    "keeps {} s B (s\<lparr>mem := m1\<rparr>) B"
    "\<And>c. c \<in> B \<or> c = mem_brk s \<Longrightarrow> GET m1 (HDRP c) = GET ?m (HDRP c)"
    "\<forall>k<10. set (L1 k) = set (L k) - {q}"
    using remove_step [OF p(1,2,3) pv(1) pv(3) qU] n by auto
  let ?s1 = "s\<lparr>mem := m1\<rparr>"
  have nU: "n \<notin> insert q {u}" using du(3) dq(3) pv(2) n by auto
  have na1: "\<not> balloc (mem ?s1) n" using acc_eq(2) [OF r(6) [of n]] nx(1) na' by simp
  obtain m2 L2 where r2: "remove_from_free_list ?s1 n = s\<lparr>mem := m2\<rparr>"
    "struct_ok (s\<lparr>mem := m2\<rparr>) B" "coalesced (s\<lparr>mem := m2\<rparr>) B {u, n}"
    "lists_ok (s\<lparr>mem := m2\<rparr>) B L2 (insert n (insert q {u}))"
    "keeps {} ?s1 B (s\<lparr>mem := m2\<rparr>) B"
    "\<And>c. c \<in> B \<or> c = mem_brk s \<Longrightarrow> GET m2 (HDRP c) = GET m1 (HDRP c)"
    "\<forall>k<10. set (L2 k) = set (L1 k) - {n}"
    using remove_step [OF r(2,3,4) nx(1) na1 nU] by auto
  let ?s2 = "s\<lparr>mem := m2\<rparr>"
  have hd: "GET m2 (HDRP c) = GET ?m (HDRP c)" if "c \<in> B \<or> c = mem_brk s" for c
    using r(6) [OF that] r2(6) [OF that] by simp
  note au = acc_eq [OF hd [of u]]
  note aq = acc_eq [OF hd [of q]]
  note an = acc_eq [OF hd [of n]]
  note ah = acc_eq [OF hd [of ?hi]]
  have hiB: "?hi \<in> B \<or> ?hi = mem_brk s" using dn(5) by auto
  have hi_al: "balloc ?m ?hi"
  proof (cases "?hi \<in> B")
    case True
    have "?hi \<notin> {u, u + bsize ?m u}" using du(3) dn(3) n by simp
    then show ?thesis using coalescedD [OF p(2) True] dn(6) na' by auto
  next
    case False
    then show ?thesis using hiB struct_ok_globals(12) [OF p(1)] by simp
  qed
  have hi_pa: "\<not> bprev ?m ?hi" using dn(6) na' by simp
  have len: "?hi - q = t" using pv(2) t n by arith
  have old: "\<not> balloc m2 c \<and> c \<in> insert n (insert q {u})"
    if c: "c \<in> B" "q \<le> c" "c < ?hi" for c
  proof -
    consider "c < u" | "u \<le> c" "c < n" | "n \<le> c" by arith
    then show ?thesis
    proof cases
      case 1
      then have "c = q" using block_between [OF p(1) pv(1) c(1,2)] pv(2) by simp
      then show ?thesis using aq pv(1,3) by simp
    next
      case 2
      then have "c = u" using block_between [OF p(1,4) c(1)] n by simp
      then show ?thesis using au p(4,5) by simp
    next
      case 3
      then have "c = n" using block_between [OF p(1) nx(1) c(1)] c(3) by simp
      then show ?thesis using an nx(1) na' by simp
    qed
  qed
  have B': "B - {u, n} = {b \<in> B. b < q \<or> ?hi \<le> b} \<union> {q}"
  proof (intro set_eqI iffI)
    fix c assume c: "c \<in> B - {u, n}"
    show "c \<in> {b \<in> B. b < q \<or> ?hi \<le> b} \<union> {q}"
    proof (rule ccontr)
      assume a: "c \<notin> {b \<in> B. b < q \<or> ?hi \<le> b} \<union> {q}"
      then have "c \<in> insert n (insert q {u})" using old [of c] c by auto
      then show False using a c by auto
    qed
  next
    fix c assume "c \<in> {b \<in> B. b < q \<or> ?hi \<le> b} \<union> {q}"
    then show "c \<in> B - {u, n}" using pv(1,2) du(3) dq(3) dn(3) n by auto
  qed
  define m3 where "m3 = PUT m2 (HDRP q)
     (mkhdr (bsize ?m u + (bsize m2 q + bsize m2 (u + bsize ?m u))) (bprev m2 q) False)"
  have c: "coalesce s u = do {
      s' \<leftarrow> insert_to_free_list (s\<lparr>mem := PUT m3 (FTRP m3 q) (GET m3 (HDRP q))\<rparr>) q;
      Some (q, s') }"
    unfolding q
    by (rule coalesce_branch4 [OF pa na r(1) [unfolded q] r2(1) [unfolded n] m3_def [unfolded q]])
  have "\<exists>m' L'. insert_to_free_list (?s2\<lparr>mem := PUT m3 (FTRP m3 q) (GET m3 (HDRP q))\<rparr>) q
          = Some (?s2\<lparr>mem := m'\<rparr>)
      \<and> heap_ok (?s2\<lparr>mem := m'\<rparr>) (B - {u, n}) L'
      \<and> keeps {} ?s2 B (?s2\<lparr>mem := m'\<rparr>) (B - {u, n})
      \<and> bsize m' q = ?hi - q \<and> \<not> balloc m' q \<and> bprev m' q
      \<and> GET m' (HDRP q) = mkhdr (?hi - q) True False
      \<and> GET m' (FTRP m' q) = GET m' (HDRP q)
      \<and> (\<forall>k<10. set (L' k) = set (L2 k) \<union> (if k = bucket (?hi - q) then {q} else {}))"
  proof (rule merge_insert [OF r2(2,3,4) pv(1)])
    show "bprev (mem ?s2) q" using aq(3) pv(1,5) by simp
    show "?hi \<in> B \<or> ?hi = mem_brk ?s2" using hiB by simp
    show "q < ?hi" using du(3) pv(2) n by arith
    show "balloc (mem ?s2) ?hi" using ah(2) hiB hi_al by auto
    show "\<not> bprev (mem ?s2) ?hi" using ah(3) hiB hi_pa by auto
    show "\<not> balloc (mem ?s2) c \<and> c \<in> insert n (insert q {u})"
      if "c \<in> B" "q \<le> c" "c < ?hi" for c
      using old [OF that] by simp
    show "q \<le> c \<and> c < ?hi" if "c \<in> insert n (insert q {u})" for c
      using that du(3) dq(3) dn(3) pv(2) n by auto
    show "q \<le> c \<and> c \<le> ?hi" if "c \<in> {u, n}" for c
      using that du(3) dq(3) pv(2) n by auto
    show "m3 = PUT (mem ?s2) (HDRP q) (mkhdr (?hi - q) True False)"
      unfolding m3_def len using aq(1,3) an(1) pv(1,5) nx(1) t n by (simp add: ac_simps)
    show "B - {u, n} = {b \<in> B. b < q \<or> ?hi \<le> b} \<union> {q}" by (rule B')
  qed
  then obtain m' L' where i:
    "insert_to_free_list (?s2\<lparr>mem := PUT m3 (FTRP m3 q) (GET m3 (HDRP q))\<rparr>) q
          = Some (s\<lparr>mem := m'\<rparr>)"
    "heap_ok (s\<lparr>mem := m'\<rparr>) (B - {u, n}) L'"
    "keeps {} ?s2 B (s\<lparr>mem := m'\<rparr>) (B - {u, n})"
    "bsize m' q = t" "\<not> balloc m' q" "bprev m' q"
    "GET m' (HDRP q) = mkhdr t True False"
    "GET m' (FTRP m' q) = GET m' (HDRP q)"
    "\<forall>k<10. set (L' k) = set (L2 k) \<union> (if k = bucket t then {q} else {})"
    unfolding len by auto
  have c': "coalesce s u = Some (q, s\<lparr>mem := m'\<rparr>)" using c i(1) by simp
  have k: "keeps {} s B (s\<lparr>mem := m'\<rparr>) (B - {u, n})"
    using keeps_trans [OF keeps_trans [OF r(5) r2(5)] i(3)] by simp
  have l: "\<forall>k<10. set (L' k) = set (L k) - {q, n} \<union> (if k = bucket t then {q} else {})"
    using i(9) r(7) r2(7) by auto
  show ?thesis
    by (intro exI [of _ m'] exI [of _ L'] conjI) (fact c' i(2) k i(4-8) l)+
qed

lemma struct_okI:
  assumes "0 < seg_free_listp s" and "8 dvd seg_free_listp s"
    and "heap_listp s = seg_free_listp s + 88"
    and "seg_free_listp s + 96 \<le> mem_brk s" and "8 dvd mem_brk s"
    and "mem_brk s \<le> mem_max_addr s"
    and "mem_max_addr s < seg_free_listp s + 2 ^ 32" and "mem_max_addr s < 2 ^ 64 - 1"
    and "GET (mem s) (seg_free_listp s + 84) = 9" and "GET (mem s) (seg_free_listp s + 88) = 9"
    and "bsize (mem s) (mem_brk s) = 0" and "balloc (mem s) (mem_brk s)"
    and "bprev (mem s) (seg_free_listp s + 96)"
    and "seg_free_listp s + 96 = mem_brk s \<or> seg_free_listp s + 96 \<in> B"
    and "\<And>b. b \<in> B \<Longrightarrow> seg_free_listp s + 96 \<le> b \<and> 8 dvd b \<and> 24 \<le> bsize (mem s) b
            \<and> b + bsize (mem s) b \<le> mem_brk s
            \<and> (b + bsize (mem s) b = mem_brk s \<or> b + bsize (mem s) b \<in> B)
            \<and> (bprev (mem s) (b + bsize (mem s) b) \<longleftrightarrow> balloc (mem s) b)
            \<and> (b = seg_free_listp s + 96 \<or> (\<exists>p\<in>B. p + bsize (mem s) p = b))
            \<and> (balloc (mem s) b
                \<or> GET_SIZE (mem s) (FTRP (mem s) b) = GET_SIZE (mem s) (HDRP b))
            \<and> (\<forall>b'\<in>B. b < b' \<longrightarrow> b + bsize (mem s) b \<le> b')"
  shows "struct_ok s B"
  unfolding struct_ok_def
  apply (intro conjI)
                apply (fact assms)+
  apply (rule ballI)
  apply (erule assms(15))
  done

lemma hdr_acc:
  assumes h: "GET m (HDRP b) = mkhdr n pa al" and n: "8 dvd n" "n < 2 ^ 32"
  shows "bsize m b = n" and "balloc m b = al" and "bprev m b = pa"
proof -
  show "bsize m b = n" unfolding bsize_def GET_SIZE_def h using n by (rule mkhdr_size)
  show "balloc m b = al" unfolding balloc_def GET_ALLOC_def h using n(1) by (rule mkhdr_alloc)
  show "bprev m b = pa" unfolding bprev_def GET_PREV_ALLOC_def h using n(1) by (rule mkhdr_prev)
qed

lemma epilogue_acc:
  assumes h: "GET m (HDRP b) = 1"
  shows "bsize m b = 0" and "balloc m b" and "\<not> bprev m b"
proof -
  have "GET m (HDRP b) = mkhdr 0 False True" using h by (simp add: mkhdr_def)
  from hdr_acc [OF this] show "bsize m b = 0" "balloc m b" "\<not> bprev m b" by simp_all
qed

text \<open>The last block ends at the epilogue.\<close>

lemma last_block:
  assumes st: "struct_ok s B"
  shows "seg_free_listp s + 96 = mem_brk s \<or> (\<exists>p\<in>B. p + bsize (mem s) p = mem_brk s)"
proof (cases "B = {}")
  case True
  then show ?thesis using struct_ok_globals(14) [OF st] by simp
next
  case False
  have fin: "finite B"
  proof (rule finite_subset)
    show "B \<subseteq> {..mem_brk s}"
    proof
      fix x assume "x \<in> B"
      from struct_okD(4) [OF st this] show "x \<in> {..mem_brk s}" by simp
    qed
  qed simp
  let ?p = "Max B"
  have p: "?p \<in> B" using Max_in [OF fin False] .
  have "?p + bsize (mem s) ?p \<notin> B"
  proof
    assume "?p + bsize (mem s) ?p \<in> B"
    then have "?p + bsize (mem s) ?p \<le> ?p" by (rule Max_ge [OF fin])
    then show False using struct_okD(3) [OF st p] by simp
  qed
  then show ?thesis using struct_okD(5) [OF st p] p by blast
qed

text \<open>A write at or above the epilogue header leaves every block as it is.\<close>

lemma low_frame:
  assumes st: "struct_ok s B" and low: "\<And>a. a < mem_brk s - 4 \<Longrightarrow> m' a = mem s a"
  shows "\<And>c. c \<in> B \<Longrightarrow> GET m' (HDRP c) = GET (mem s) (HDRP c)"
    and "\<And>c. c \<in> B \<Longrightarrow> GET m' (FTRP (mem s) c) = GET (mem s) (FTRP (mem s) c)"
    and "\<And>c a. c \<in> B \<Longrightarrow> c \<le> a \<Longrightarrow> a < c + bsize (mem s) c - 4 \<Longrightarrow> m' a = mem s a"
    and "\<And>j. j < 10 \<Longrightarrow> GET_8B m' (seg_free_listp s + 8 * j) = GET_8B (mem s) (seg_free_listp s + 8 * j)"
    and "GET m' (seg_free_listp s + 84) = GET (mem s) (seg_free_listp s + 84)"
    and "GET m' (seg_free_listp s + 88) = GET (mem s) (seg_free_listp s + 88)"
proof -
  note g = struct_ok_globals [OF st]
  show "GET m' (HDRP c) = GET (mem s) (HDRP c)" if "c \<in> B" for c
    using struct_okD(1,3,4) [OF st that] unfolding HDRP_def by (intro GET_cong low) arith
  show "GET m' (FTRP (mem s) c) = GET (mem s) (FTRP (mem s) c)" if "c \<in> B" for c
    using struct_okD(1,3,4) [OF st that] unfolding FTRP_bsize by (intro GET_cong low) arith
  show "m' a = mem s a" if "c \<in> B" "c \<le> a" "a < c + bsize (mem s) c - 4" for c a
    using struct_okD(1,3,4) [OF st that(1)] that(2,3) by (intro low) arith
  show "GET_8B m' (seg_free_listp s + 8 * j) = GET_8B (mem s) (seg_free_listp s + 8 * j)"
    if "j < 10" for j
    using g(4) that by (intro GET_8B_cong low) arith
  show "GET m' (seg_free_listp s + 84) = GET (mem s) (seg_free_listp s + 84)"
    using g(4) by (intro GET_cong low) arith
  show "GET m' (seg_free_listp s + 88) = GET (mem s) (seg_free_listp s + 88)"
    using g(4) by (intro GET_cong low) arith
qed

(*LEMMAS-END*)

section \<open>Claims\<close>

subsection \<open>C8: the adjusted block size\<close>

lemma malloc_asize_unat:
  assumes "unat sz + 11 < 2 ^ 64"
  shows "unat (malloc_asize sz) = (if unat sz \<le> 16 then 24 else 8 * ((unat sz + 4 + 7) div 8))"
proof (cases "sz \<le> 16")
  case True
  then show ?thesis by (simp add: malloc_asize_def word_le_nat_alt)
next
  case False
  have a: "unat (sz + 11) = unat sz + 11" using assms by (simp add: unat_word_ariths)
  have b: "unat ((sz + 11) div 8) = (unat sz + 11) div 8" by (simp add: unat_div a)
  have "8 * ((unat sz + 11) div 8) \<le> unat sz + 11" by simp
  with assms have "8 * ((unat sz + 11) div 8) < 2 ^ 64" by linarith
  then have c: "unat (8 * ((sz + 11) div 8)) = 8 * ((unat sz + 11) div 8)"
    using b by (simp add: unat_word_ariths)
  from False c show ?thesis by (simp add: malloc_asize_def word_le_nat_alt add.assoc)
qed

text \<open>
  C8, as stated, fails: \<^verbatim>\<open>size + WSIZE + (DSIZE-1)\<close> is computed in \<^verbatim>\<open>size_t\<close> and wraps.
  For the request \<open>2^64 - 1\<close> the adjusted size is 8, which is neither at least 24 nor
  at least the request plus 4.
\<close>

theorem malloc_asize_wraps:
  "(0 :: 64 word) < 18446744073709551615
   \<and> malloc_asize 18446744073709551615 = 8
   \<and> \<not> 24 \<le> unat (malloc_asize 18446744073709551615)
   \<and> \<not> unat (18446744073709551615 :: 64 word) + 4 \<le> unat (malloc_asize 18446744073709551615)"
  by (simp add: malloc_asize_def)

text \<open>
  C8, amended: for every request \<open>size > 0\<close> with \<open>size + 11 < 2^64\<close> (so that the sum
  does not wrap), the adjusted size computed by \<^verbatim>\<open>malloc\<close> is the smallest multiple of 8
  that is at least \<open>size + 4\<close> and at least 24; it is 24 when \<open>size \<le> 16\<close> and
  \<open>8 * ceil ((size + 4) / 8)\<close> otherwise.
\<close>

theorem malloc_asize_least:
  assumes "0 < sz" and "unat sz + 11 < 2 ^ 64"
  shows "8 dvd unat (malloc_asize sz)
    \<and> unat sz + 4 \<le> unat (malloc_asize sz)
    \<and> 24 \<le> unat (malloc_asize sz)
    \<and> (\<forall>k. 8 dvd k \<and> unat sz + 4 \<le> k \<and> 24 \<le> k \<longrightarrow> unat (malloc_asize sz) \<le> k)
    \<and> unat (malloc_asize sz) = (if unat sz \<le> 16 then 24 else 8 * ((unat sz + 4 + 7) div 8))"
proof -
  let ?a = "unat (malloc_asize sz)"
  have eq: "?a = (if unat sz \<le> 16 then 24 else 8 * ((unat sz + 4 + 7) div 8))"
    using assms(2) by (rule malloc_asize_unat)
  have d: "8 dvd ?a" by (simp add: eq)
  have l: "unat sz + 4 \<le> ?a" unfolding eq by (simp; presburger)
  have m: "24 \<le> ?a" unfolding eq by (simp; presburger)
  have least: "?a \<le> k" if "8 dvd k" "unat sz + 4 \<le> k" "24 \<le> k" for k
    using that unfolding eq by (simp; presburger)
  from d l m least eq show ?thesis by blast
qed

theorem malloc_asize_least_witness:
  "(0 :: 64 word) < 100 \<and> unat (100 :: 64 word) + 11 < 2 ^ 64
   \<and> 8 dvd unat (malloc_asize 100) \<and> unat (malloc_asize 100) = 104"
  using malloc_asize_least [of 100] by simp

subsection \<open>C9: invalid input\<close>

text \<open>
  C9: in every state after \<^verbatim>\<open>mm_init\<close> (the global \<^verbatim>\<open>heap_listp\<close> is set),
  \<^verbatim>\<open>malloc(0)\<close> returns null and leaves the state as it is, \<^verbatim>\<open>free(NULL)\<close> does
  nothing, \<^verbatim>\<open>realloc(p, 0)\<close> is \<^verbatim>\<open>free(p)\<close> returning null, and
  \<^verbatim>\<open>realloc(NULL, n)\<close> is \<^verbatim>\<open>malloc(n)\<close>.
\<close>

theorem invalid_input:
  "heap_listp s \<noteq> 0 \<Longrightarrow>
     malloc s 0 = Some (0, s)
     \<and> free s 0 = Some s
     \<and> realloc s p 0 = map_option (\<lambda>s'. (0, s')) (free s p)
     \<and> realloc s 0 n = malloc s n"
  by (simp add: malloc_def free_def realloc_def bind_Some_map)

theorem invalid_input_witness:
  "heap_listp s_ex \<noteq> 0 \<and> malloc s_ex 0 = Some (0, s_ex) \<and> free s_ex 0 = Some s_ex
   \<and> realloc s_ex 0 0 = Some (0, s_ex)"
  using invalid_input [of s_ex 0 0] by (simp add: s_ex_def)

subsection \<open>C10: removing nothing\<close>

text \<open>
  C10: \<^verbatim>\<open>remove_from_free_list\<close> called with a null pointer, or with a block whose
  header has the self-allocated bit (bit 0) set, returns the state unchanged: the whole
  memory (headers, footers, links and the ten root cells) and the globals.
\<close>

theorem remove_from_free_list_noop:
  "bp = 0 \<or> bit (GET (mem s) (HDRP bp)) 0 \<Longrightarrow> remove_from_free_list s bp = s"
  by (auto simp: remove_from_free_list_def GET_ALLOC_def and_one_eq bit_0 mod_2_eq_odd
      word_eq_iff_unsigned[where ?'a=nat])

theorem remove_from_free_list_noop_witness:
  "bit (GET (mem s_ex) (HDRP 104)) 0 \<and> remove_from_free_list s_ex 104 = s_ex
   \<and> remove_from_free_list s_ex 0 = s_ex"
  using remove_from_free_list_noop [of 104 s_ex] remove_from_free_list_noop [of 0 s_ex]
  by (simp add: s_ex_def HDRP_def GET_PUT_same)

end
